theory Spec2Isabelle
  imports Main "HOL-Library.Multiset"
begin

section \<open>The item model\<close>

text \<open>
  The Go sources declare \<^verbatim>\<open>Item\<close> twice: with the fields \<^verbatim>\<open>value, weight, isSelected\<close>
  (exhaustive search, branch and bound) and with the additional fields
  \<^verbatim>\<open>id, blockedBy, blockList\<close> (Rod's technique, dynamic programming).  The record below is
  the larger declaration; the solvers of the smaller one never read the extra fields.
  The fields \<^verbatim>\<open>id\<close> and \<^verbatim>\<open>value\<close> are written \<open>item_id\<close> and \<open>item_value\<close>.

  Go's \<^verbatim>\<open>int\<close> is modelled by the unbounded \<^typ>\<open>int\<close>: the specification excludes inputs whose
  sums overflow the native integer.  A slice index is a \<^typ>\<open>nat\<close> where the code guards it
  by a comparison with \<^verbatim>\<open>len(items)\<close>, and an \<^typ>\<open>int\<close> with an explicit range check where it
  comes from data.
\<close>

record Item =
  item_id :: int
  blockedBy :: int
  blockList :: "int list"
  item_value :: int
  weight :: int
  isSelected :: bool

datatype panic = IndexOutOfRange | MakeSliceLenOutOfRange

text \<open>A solver returns \<^verbatim>\<open>([]Item, int, int)\<close>: the selection (\<open>None\<close> is Go's \<^verbatim>\<open>nil\<close>
  slice), its value and the number of calls.  A model function returns this triple together
  with the contents of the caller's slice after the call, since the search mutates it in
  place.\<close>

type_synonym result = "Item list option \<times> int \<times> int"

definition solutionOf :: "result \<Rightarrow> Item list option" where
  "solutionOf r = fst r"

definition valueOf :: "result \<Rightarrow> int" where
  "valueOf r = fst (snd r)"

definition callsOf :: "result \<Rightarrow> int" where
  "callsOf r = snd (snd r)"

definition copyItems :: "Item list \<Rightarrow> Item list" where
  "copyItems items = items"

fun sumValues :: "Item list \<Rightarrow> bool \<Rightarrow> int" where
  "sumValues [] addAll = 0"
| "sumValues (it # items) addAll =
     (if addAll \<or> isSelected it then item_value it else 0) + sumValues items addAll"

fun sumWeights :: "Item list \<Rightarrow> bool \<Rightarrow> int" where
  "sumWeights [] addAll = 0"
| "sumWeights (it # items) addAll =
     (if addAll \<or> isSelected it then weight it else 0) + sumWeights items addAll"

definition solutionValue :: "Item list \<Rightarrow> int \<Rightarrow> int" where
  "solutionValue items allowedWeight =
     (if sumWeights items False > allowedWeight then - 1 else sumValues items False)"

text \<open>The assignment \<^verbatim>\<open>items[i].isSelected = b\<close>.\<close>

definition setSelected :: "Item list \<Rightarrow> nat \<Rightarrow> bool \<Rightarrow> Item list" where
  "setSelected items i b = items[i := (items ! i)\<lparr>isSelected := b\<rparr>]"

text \<open>A checked read \<^verbatim>\<open>xs[i]\<close> of a slice at an index that is not guarded by the code.\<close>

definition getIdx :: "'a list \<Rightarrow> int \<Rightarrow> panic + 'a" where
  "getIdx xs i = (if 0 \<le> i \<and> i < int (length xs) then Inr (xs ! nat i) else Inl IndexOutOfRange)"

section \<open>Exhaustive search\<close>

function doExhaustiveSearch :: "Item list \<Rightarrow> int \<Rightarrow> nat \<Rightarrow> result \<times> Item list" where
  "doExhaustiveSearch items allowedWeight nextIndex =
     (if nextIndex \<ge> length items then
        (let copiedItems = copyItems items;
             solutionVal = solutionValue copiedItems allowedWeight
         in ((Some copiedItems, solutionVal, 1), items))
      else
        (let items1 = setSelected items nextIndex True;
             (withRes, items2) = doExhaustiveSearch items1 allowedWeight (nextIndex + 1);
             items3 = setSelected items2 nextIndex False;
             (withoutRes, items4) = doExhaustiveSearch items3 allowedWeight (nextIndex + 1);
             (withItem, withValue, withCalls) = withRes;
             (withoutItem, withoutValue, withoutCalls) = withoutRes
         in if withValue > withoutValue
            then ((withItem, withValue, withCalls + withoutCalls + 1), items4)
            else ((withoutItem, withoutValue, withCalls + withoutCalls + 1), items4)))"
  by pat_completeness auto

lemma length_setSelected [simp]: "length (setSelected items i b) = length items"
  by (simp add: setSelected_def)

lemma doExhaustiveSearch_dom_length:
  "doExhaustiveSearch_dom (items, allowedWeight, nextIndex) \<Longrightarrow>
   length (snd (doExhaustiveSearch items allowedWeight nextIndex)) = length items"
proof (induction items allowedWeight nextIndex rule: doExhaustiveSearch.pinduct)
  case (1 items allowedWeight nextIndex)
  then show ?case
    by (subst doExhaustiveSearch.psimps) (auto simp: Let_def split: prod.splits)
qed

termination doExhaustiveSearch
proof (relation "measure (\<lambda>(items, allowedWeight, nextIndex). length items - nextIndex)",
    goal_cases)
  case 1
  show ?case by simp
next
  case (2 items allowedWeight nextIndex items1)
  then show ?case by simp
next
  case (3 items allowedWeight nextIndex items1 r withRes items2 items3)
  from 3 have "items2 = snd (doExhaustiveSearch items1 allowedWeight (nextIndex + 1))"
    by (metis snd_conv)
  with 3 doExhaustiveSearch_dom_length[of items1 allowedWeight "nextIndex + 1"]
  show ?case by simp
qed

definition exhaustiveSearch :: "Item list \<Rightarrow> int \<Rightarrow> result \<times> Item list" where
  "exhaustiveSearch items allowedWeight = doExhaustiveSearch items allowedWeight 0"


section \<open>Branch and bound\<close>

text \<open>
  \<^verbatim>\<open>bestValue\<close> is a by-value parameter: the assignments to it at a leaf and after the
  second branch change a local that is never read again, so they have no counterpart here.
  A branch that is not explored yields \<^verbatim>\<open>nil, 0, 1\<close>.
\<close>

function doBranchAndBound ::
  "Item list \<Rightarrow> int \<Rightarrow> nat \<Rightarrow> int \<Rightarrow> int \<Rightarrow> int \<Rightarrow> int \<Rightarrow> result \<times> Item list" where
  "doBranchAndBound items allowedWeight nextIndex bestValue currentValue currentWeight
       remainingValue =
     (if nextIndex \<ge> length items then
        (let copiedItems = copyItems items;
             solutionVal = solutionValue copiedItems allowedWeight
         in ((Some copiedItems, solutionVal, 1), items))
      else if currentValue + remainingValue < bestValue then ((None, 0, 1), items)
      else
        (let (test1, items1) =
               (if currentWeight + weight (items ! nextIndex) \<le> allowedWeight then
                  (let itemsT = setSelected items nextIndex True
                   in doBranchAndBound itemsT allowedWeight (nextIndex + 1) bestValue
                        (currentValue + item_value (itemsT ! nextIndex))
                        (currentWeight + weight (itemsT ! nextIndex))
                        (remainingValue - item_value (itemsT ! nextIndex)))
                else ((None, 0, 1), items));
             bestValue1 = (if valueOf test1 > bestValue then valueOf test1 else bestValue);
             (test2, items2) =
               (if currentValue + remainingValue - item_value (items1 ! nextIndex) > bestValue1
                then
                  (let itemsF = setSelected items1 nextIndex False
                   in doBranchAndBound itemsF allowedWeight (nextIndex + 1) bestValue1
                        currentValue currentWeight
                        (remainingValue - item_value (itemsF ! nextIndex)))
                else ((None, 0, 1), items1));
             (test1Solution, test1Value, test1Calls) = test1;
             (test2Solution, test2Value, test2Calls) = test2
         in if test1Value \<ge> test2Value
            then ((test1Solution, test1Value, test1Calls + test2Calls + 1), items2)
            else ((test2Solution, test2Value, test1Calls + test2Calls + 1), items2)))"
  by pat_completeness auto

lemma doBranchAndBound_dom_length:
  "doBranchAndBound_dom (items, allowedWeight, nextIndex, bestValue, currentValue,
      currentWeight, remainingValue) \<Longrightarrow>
   length (snd (doBranchAndBound items allowedWeight nextIndex bestValue currentValue
      currentWeight remainingValue)) = length items"
proof (induction items allowedWeight nextIndex bestValue currentValue currentWeight
    remainingValue rule: doBranchAndBound.pinduct)
  case (1 items allowedWeight nextIndex bestValue currentValue currentWeight remainingValue)
  then show ?case
    by (subst doBranchAndBound.psimps) (auto simp: Let_def split: prod.splits if_splits)
qed

termination doBranchAndBound
proof (relation "measure (\<lambda>(items, allowedWeight, nextIndex, rest). length items - nextIndex)",
    goal_cases)
  case 1
  show ?case by simp
next
  case (2 items allowedWeight nextIndex bestValue currentValue currentWeight remainingValue
      itemsT)
  then show ?case by simp
next
  case (3 items allowedWeight nextIndex bestValue currentValue currentWeight remainingValue
      r test1 items1 bestValue1 itemsF)
  have "length items1 = length items"
  proof (cases "currentWeight + weight (items ! nextIndex) \<le> allowedWeight")
    case True
    with 3 have "items1 = snd (doBranchAndBound (setSelected items nextIndex True)
        allowedWeight (nextIndex + 1) bestValue
        (currentValue + item_value (setSelected items nextIndex True ! nextIndex))
        (currentWeight + weight (setSelected items nextIndex True ! nextIndex))
        (remainingValue - item_value (setSelected items nextIndex True ! nextIndex)))"
      by (metis snd_conv)
    with 3 True show ?thesis
      by (simp add: doBranchAndBound_dom_length)
  next
    case False
    with 3 show ?thesis by auto
  qed
  with 3 show ?case by simp
qed

definition branchAndBound :: "Item list \<Rightarrow> int \<Rightarrow> result \<times> Item list" where
  "branchAndBound items allowedWeight =
     (let bestValue = 0;
          currentValue = 0;
          currentWeight = 0;
          remainingValue = sumValues items True
      in doBranchAndBound items allowedWeight 0
           bestValue currentValue currentWeight remainingValue)"


section \<open>Rod's technique\<close>

text \<open>\<^verbatim>\<open>makeBlockLists\<close>: the inner loop over \<^verbatim>\<open>j\<close> collects the ids of the items that
  item \<^verbatim>\<open>i\<close> dominates; the outer loop stores the list in \<^verbatim>\<open>items[i].blockList\<close>.  The loops
  read only \<^verbatim>\<open>value\<close>, \<^verbatim>\<open>weight\<close> and \<^verbatim>\<open>id\<close>, which they do not change.\<close>

definition dominatedIds :: "Item list \<Rightarrow> nat \<Rightarrow> int list" where
  "dominatedIds items i =
     map (\<lambda>j. item_id (items ! j))
       (filter (\<lambda>j. i \<noteq> j \<and> item_value (items ! i) \<ge> item_value (items ! j)
                     \<and> weight (items ! i) \<le> weight (items ! j))
          [0..<length items])"

definition makeBlockLists :: "Item list \<Rightarrow> Item list" where
  "makeBlockLists items =
     map (\<lambda>i. (items ! i)\<lparr>blockList := dominatedIds items i\<rparr>) [0..<length items]"

text \<open>\<^verbatim>\<open>blockItems\<close> and \<^verbatim>\<open>unblockItems\<close> receive \<^verbatim>\<open>source\<close> by value and index
  \<^verbatim>\<open>items\<close> with the ids of its block list; an id outside the slice makes Go panic.\<close>

fun blockLoop :: "int \<Rightarrow> int list \<Rightarrow> Item list \<Rightarrow> panic + Item list" where
  "blockLoop sourceId [] items = Inr items"
| "blockLoop sourceId (otherId # rest) items =
     (if 0 \<le> otherId \<and> otherId < int (length items) then
        blockLoop sourceId rest
          (if blockedBy (items ! nat otherId) < 0
           then items[nat otherId := (items ! nat otherId)\<lparr>blockedBy := sourceId\<rparr>]
           else items)
      else Inl IndexOutOfRange)"

definition blockItems :: "Item \<Rightarrow> Item list \<Rightarrow> panic + Item list" where
  "blockItems source items = blockLoop (item_id source) (blockList source) items"

fun unblockLoop :: "int \<Rightarrow> int list \<Rightarrow> Item list \<Rightarrow> panic + Item list" where
  "unblockLoop sourceId [] items = Inr items"
| "unblockLoop sourceId (otherId # rest) items =
     (if 0 \<le> otherId \<and> otherId < int (length items) then
        unblockLoop sourceId rest
          (if blockedBy (items ! nat otherId) = sourceId
           then items[nat otherId := (items ! nat otherId)\<lparr>blockedBy := - 1\<rparr>]
           else items)
      else Inl IndexOutOfRange)"

definition unblockItems :: "Item \<Rightarrow> Item list \<Rightarrow> panic + Item list" where
  "unblockItems source items = unblockLoop (item_id source) (blockList source) items"

function doRodsTechnique ::
  "Item list \<Rightarrow> int \<Rightarrow> nat \<Rightarrow> int \<Rightarrow> int \<Rightarrow> int \<Rightarrow> int \<Rightarrow> panic + (result \<times> Item list)" where
  "doRodsTechnique items allowedWeight nextIndex bestValue currentValue currentWeight
       remainingValue =
     (if nextIndex \<ge> length items then
        (let copiedItems = copyItems items;
             solutionVal = solutionValue copiedItems allowedWeight
         in Inr ((Some copiedItems, solutionVal, 1), items))
      else if currentValue + remainingValue < bestValue then Inr ((None, 0, 1), items)
      else
        (case (if currentWeight + weight (items ! nextIndex) \<le> allowedWeight
                  \<and> blockedBy (items ! nextIndex) < 0
               then
                 (let itemsT = setSelected items nextIndex True
                  in doRodsTechnique itemsT allowedWeight (nextIndex + 1) bestValue
                       (currentValue + item_value (itemsT ! nextIndex))
                       (currentWeight + weight (itemsT ! nextIndex))
                       (remainingValue - item_value (itemsT ! nextIndex)))
               else Inr ((None, 0, 1), items)) of
           Inl e \<Rightarrow> Inl e
         | Inr (test1, items1) \<Rightarrow>
             (let bestValue1 = (if valueOf test1 > bestValue then valueOf test1 else bestValue)
              in case blockItems (items1 ! nextIndex) items1 of
                   Inl e \<Rightarrow> Inl e
                 | Inr itemsB \<Rightarrow>
                     (let itemsF = setSelected itemsB nextIndex False
                      in case doRodsTechnique itemsF allowedWeight (nextIndex + 1) bestValue1
                                currentValue currentWeight
                                (remainingValue - item_value (itemsF ! nextIndex)) of
                           Inl e \<Rightarrow> Inl e
                         | Inr (test2, items2) \<Rightarrow>
                             (case unblockItems (items2 ! nextIndex) items2 of
                                Inl e \<Rightarrow> Inl e
                              | Inr itemsU \<Rightarrow>
                                  (let (test1Solution, test1Value, test1Calls) = test1;
                                       (test2Solution, test2Value, test2Calls) = test2
                                   in if test1Value \<ge> test2Value
                                      then Inr ((test1Solution, test1Value,
                                                 test1Calls + test2Calls + 1), itemsU)
                                      else Inr ((test2Solution, test2Value,
                                                 test1Calls + test2Calls + 1), itemsU)))))))"
  by pat_completeness auto

lemma blockLoop_length: "blockLoop sid ids items = Inr items' \<Longrightarrow> length items' = length items"
  by (induction sid ids items rule: blockLoop.induct) (auto split: if_splits)

lemma unblockLoop_length:
  "unblockLoop sid ids items = Inr items' \<Longrightarrow> length items' = length items"
  by (induction sid ids items rule: unblockLoop.induct) (auto split: if_splits)

lemma doRodsTechnique_dom_length:
  "doRodsTechnique_dom (items, allowedWeight, nextIndex, bestValue, currentValue,
      currentWeight, remainingValue) \<Longrightarrow>
   doRodsTechnique items allowedWeight nextIndex bestValue currentValue
      currentWeight remainingValue = Inr (r, items') \<Longrightarrow>
   length items' = length items"
proof (induction items allowedWeight nextIndex bestValue currentValue currentWeight
    remainingValue arbitrary: r items' rule: doRodsTechnique.pinduct)
  case (1 items allowedWeight nextIndex bestValue currentValue currentWeight remainingValue)
  note eq = "1.prems"[unfolded doRodsTechnique.psimps[OF "1.hyps"]]
  show ?case
  proof (cases "nextIndex \<ge> length items \<or> currentValue + remainingValue < bestValue")
    case True
    with eq show ?thesis by (auto simp: Let_def split: if_splits)
  next
    case False
    define first where "first =
      (if currentWeight + weight (items ! nextIndex) \<le> allowedWeight \<and>
          blockedBy (items ! nextIndex) < 0
       then let itemsT = setSelected items nextIndex True
            in doRodsTechnique itemsT allowedWeight (nextIndex + 1) bestValue
                (currentValue + item_value (itemsT ! nextIndex))
                (currentWeight + weight (itemsT ! nextIndex))
                (remainingValue - item_value (itemsT ! nextIndex))
       else Inr ((None, 0, 1), items))"
    from eq False obtain test1 items1 where f: "first = Inr (test1, items1)"
      by (auto simp: first_def[symmetric] split: sum.splits)
    have l1: "length items1 = length items"
      using f False "1.IH"(1)[OF _ _ _ refl, of test1 items1]
      by (auto simp: first_def Let_def split: if_splits)
    from eq False f obtain itemsB where
      b: "blockItems (items1 ! nextIndex) items1 = Inr itemsB"
      by (auto simp: first_def[symmetric] Let_def split: sum.splits)
    have lB: "length itemsB = length items1"
      using b by (auto simp: blockItems_def dest: blockLoop_length)
    define bestValue1 where
      "bestValue1 = (if bestValue < valueOf test1 then valueOf test1 else bestValue)"
    define itemsF where "itemsF = setSelected itemsB nextIndex False"
    from eq False f b obtain test2 items2 where
      s: "doRodsTechnique itemsF allowedWeight (nextIndex + 1) bestValue1
            currentValue currentWeight (remainingValue - item_value (itemsF ! nextIndex))
          = Inr (test2, items2)"
      by (auto simp: first_def[symmetric] bestValue1_def itemsF_def Let_def
          split: sum.splits)
    have l2: "length items2 = length itemsF"
      using "1.IH"(2)[OF _ _ f[unfolded first_def] refl bestValue1_def b itemsF_def s] False
      by simp
    from eq False f b s obtain itemsU where
      u: "unblockItems (items2 ! nextIndex) items2 = Inr itemsU" and i: "items' = itemsU"
      by (auto simp: first_def[symmetric] bestValue1_def[symmetric]
          itemsF_def[symmetric] Let_def split: sum.splits prod.splits if_splits)
    have "length itemsU = length items2"
      using u by (auto simp: unblockItems_def dest: unblockLoop_length)
    with l1 lB l2 i show ?thesis by (simp add: itemsF_def)
  qed
qed


termination doRodsTechnique
proof (relation "measure (\<lambda>(items, allowedWeight, nextIndex, rest). length items - nextIndex)",
    goal_cases)
  case 1
  show ?case by simp
next
  case (2 items allowedWeight nextIndex bestValue currentValue currentWeight remainingValue
      itemsT)
  then show ?case by simp
next
  case (3 items allowedWeight nextIndex bestValue currentValue currentWeight remainingValue
      b test1 items1 bestValue1 itemsB itemsF)
  have "length items1 = length items"
  proof (cases "currentWeight + weight (items ! nextIndex) \<le> allowedWeight \<and>
      blockedBy (items ! nextIndex) < 0")
    case True
    with 3 show ?thesis
      using doRodsTechnique_dom_length[of "setSelected items nextIndex True" allowedWeight
          "nextIndex + 1" bestValue _ _ _ test1 items1]
      by (simp add: Let_def)
  next
    case False
    with 3 show ?thesis by auto
  qed
  moreover have "length itemsB = length items1"
    using 3 by (auto simp: blockItems_def dest: blockLoop_length)
  ultimately show ?case using 3 by simp
qed

definition rodsTechnique :: "Item list \<Rightarrow> int \<Rightarrow> panic + (result \<times> Item list)" where
  "rodsTechnique items allowedWeight =
     (let items1 = makeBlockLists items;
          bestValue = 0;
          currentValue = 0;
          currentWeight = 0;
          remainingValue = sumValues items1 True
      in doRodsTechnique items1 allowedWeight 0
           bestValue currentValue currentWeight remainingValue)"

text \<open>\<^verbatim>\<open>rodsTechniqueSorted\<close> sorts with Go's \<^verbatim>\<open>sort.Slice\<close>, which is not part of the
  repository and is not stable; the model takes the sorting function as the parameter
  \<open>sortSlice\<close> (it receives the comparison and the slice).  After sorting, the loop over
  \<^verbatim>\<open>i\<close> stores \<^verbatim>\<open>i\<close> in \<^verbatim>\<open>items[i].id\<close>.\<close>

definition resetIds :: "Item list \<Rightarrow> Item list" where
  "resetIds items = map (\<lambda>i. (items ! i)\<lparr>item_id := int i\<rparr>) [0..<length items]"

definition rodsTechniqueSorted ::
  "((Item \<Rightarrow> Item \<Rightarrow> bool) \<Rightarrow> Item list \<Rightarrow> Item list) \<Rightarrow> Item list \<Rightarrow> int
     \<Rightarrow> panic + (result \<times> Item list)" where
  "rodsTechniqueSorted sortSlice items allowedWeight =
     (let items1 = makeBlockLists items;
          items2 = sortSlice (\<lambda>a b. length (blockList a) > length (blockList b)) items1;
          items3 = resetIds items2;
          items4 = makeBlockLists items3;
          bestValue = 0;
          currentValue = 0;
          currentWeight = 0;
          remainingValue = sumValues items4 True
      in doRodsTechnique items4 allowedWeight 0
           bestValue currentValue currentWeight remainingValue)"

section \<open>Dynamic programming\<close>

text \<open>
  The two tables are built row by row: a row is the list of its cells for the budgets
  \<open>0..allowedWeight\<close>, and row \<open>i\<close> is computed from row \<open>i - 1\<close> alone.  Every slice read
  whose index the code does not guard goes through \<^const>\<open>getIdx\<close>.
\<close>

text \<open>The loop that initialises row 0: the cells \<^verbatim>\<open>solutionValue[0][w]\<close> and
  \<^verbatim>\<open>prevWeight[0][w]\<close>.\<close>

definition initRow :: "Item \<Rightarrow> int \<Rightarrow> (int \<times> int) list" where
  "initRow item0 allowedWeight =
     map (\<lambda>w. if weight item0 \<le> int w then (item_value item0, - 1) else (0, int w))
       [0..<nat (allowedWeight + 1)]"

text \<open>One pass of the inner loop for a row \<open>i \<ge> 1\<close>: the cells
  \<^verbatim>\<open>solutionValue[i][w]\<close> and \<^verbatim>\<open>prevWeight[i][w]\<close> from the row \<^verbatim>\<open>solutionValue[i-1]\<close>.\<close>

definition dpCell :: "Item \<Rightarrow> int list \<Rightarrow> nat \<Rightarrow> panic + (int \<times> int)" where
  "dpCell item prevRow w =
     (case getIdx prevRow (int w) of
        Inl e \<Rightarrow> Inl e
      | Inr valueWithoutI \<Rightarrow>
          (case (if weight item \<le> int w
                 then (case getIdx prevRow (int w - weight item) of
                         Inl e \<Rightarrow> Inl e
                       | Inr v \<Rightarrow> Inr (v + item_value item))
                 else Inr 0) of
             Inl e \<Rightarrow> Inl e
           | Inr valueWithI \<Rightarrow>
               (if valueWithoutI \<ge> valueWithI
                then Inr (valueWithoutI, int w)
                else Inr (valueWithI, int w - weight item))))"

fun fillRow :: "Item \<Rightarrow> int list \<Rightarrow> nat list \<Rightarrow> panic + (int \<times> int) list" where
  "fillRow item prevRow [] = Inr []"
| "fillRow item prevRow (w # ws) =
     (case dpCell item prevRow w of
        Inl e \<Rightarrow> Inl e
      | Inr c \<Rightarrow>
          (case fillRow item prevRow ws of
             Inl e \<Rightarrow> Inl e
           | Inr cs \<Rightarrow> Inr (c # cs)))"

text \<open>The outer loop over the rows \<open>1..numItems - 1\<close>; the first argument holds the items
  of the rows still to fill, the third the row before them.\<close>

fun fillRows :: "Item list \<Rightarrow> int \<Rightarrow> (int \<times> int) list \<Rightarrow> panic + (int \<times> int) list list" where
  "fillRows [] allowedWeight prevRow = Inr []"
| "fillRows (item # rest) allowedWeight prevRow =
     (case fillRow item (map fst prevRow) [0..<nat (allowedWeight + 1)] of
        Inl e \<Rightarrow> Inl e
      | Inr row \<Rightarrow>
          (case fillRows rest allowedWeight row of
             Inl e \<Rightarrow> Inl e
           | Inr rows \<Rightarrow> Inr (row # rows)))"

text \<open>The reconstruction loop \<^verbatim>\<open>for i >= 0\<close>: the third argument is \<open>i + 1\<close>, so that
  \<open>0\<close> is the exit with \<open>i = -1\<close>.\<close>

fun reconstruct :: "int list list \<Rightarrow> Item list \<Rightarrow> nat \<Rightarrow> int \<Rightarrow> panic + Item list" where
  "reconstruct prevWeight items 0 w = Inr items"
| "reconstruct prevWeight items (Suc i) w =
     (case getIdx prevWeight (int i) of
        Inl e \<Rightarrow> Inl e
      | Inr row \<Rightarrow>
          (case getIdx row w of
             Inl e \<Rightarrow> Inl e
           | Inr prevW \<Rightarrow>
               (if w = prevW then reconstruct prevWeight items i w
                else reconstruct prevWeight (setSelected items i True) i prevW)))"

text \<open>
  With no items, Go panics at \<^verbatim>\<open>items[0]\<close> (when \<open>allowedWeight \<ge> 0\<close>) or at the final read
  \<^verbatim>\<open>solutionValue[numItems-1]\<close> (otherwise).  With items, \<^verbatim>\<open>make([]int, allowedWeight+1)\<close>
  panics for a negative length.  The returned slice is the argument slice itself, so the
  selection and the caller's slice after the call are the same list.
\<close>

definition dynamicProgramming :: "Item list \<Rightarrow> int \<Rightarrow> panic + (result \<times> Item list)" where
  "dynamicProgramming items allowedWeight =
     (let numItems = length items
      in case items of
           [] \<Rightarrow> Inl IndexOutOfRange
         | item0 # rest \<Rightarrow>
             if allowedWeight + 1 < 0 then Inl MakeSliceLenOutOfRange
             else
               (case fillRows rest allowedWeight (initRow item0 allowedWeight) of
                  Inl e \<Rightarrow> Inl e
                | Inr rows \<Rightarrow>
                    (let table = initRow item0 allowedWeight # rows;
                         solutionValueT = map (map fst) table;
                         prevWeight = map (map snd) table
                     in case reconstruct prevWeight items numItems allowedWeight of
                          Inl e \<Rightarrow> Inl e
                        | Inr items' \<Rightarrow>
                            (case getIdx solutionValueT (int numItems - 1) of
                               Inl e \<Rightarrow> Inl e
                             | Inr lastRow \<Rightarrow>
                                 (case getIdx lastRow allowedWeight of
                                    Inl e \<Rightarrow> Inl e
                                  | Inr v \<Rightarrow> Inr ((Some items', v, 1), items'))))))"

section \<open>Dynamic programming on a store of backing arrays\<close>

text \<open>
  The functions above pass the contents of a slice from call to call, which tells what a
  returned slice holds and not which slice it is.  The functions of this section keep the
  backing arrays in a store: a slice is \<^verbatim>\<open>nil\<close> (\<open>None\<close>) or the index of its backing array in
  the store (every slice of the program spans its whole array), and an assignment
  \<^verbatim>\<open>items[i].isSelected = b\<close> changes that array in place.  \<^verbatim>\<open>copyItems\<close> makes a new
  array, \<^verbatim>\<open>make([]Item, len(items))\<close>, and copies the items into it.
  \<^verbatim>\<open>dynamicProgramming\<close> returns its parameter \<^verbatim>\<open>items\<close>; its two tables are local and
  do not escape, so they stay outside the store.
\<close>

type_synonym store = "Item list list"

type_synonym slice = "nat option"

definition sliceContents :: "store \<Rightarrow> slice \<Rightarrow> Item list" where
  "sliceContents st s = (case s of None \<Rightarrow> [] | Some a \<Rightarrow> st ! a)"

definition storeSelected :: "store \<Rightarrow> slice \<Rightarrow> nat \<Rightarrow> bool \<Rightarrow> store" where
  "storeSelected st s i b =
     (case s of None \<Rightarrow> st | Some a \<Rightarrow> st[a := setSelected (st ! a) i b])"

definition copyItemsS :: "store \<Rightarrow> slice \<Rightarrow> slice \<times> store" where
  "copyItemsS st items = (Some (length st), st @ [sliceContents st items])"

fun reconstructS :: "int list list \<Rightarrow> store \<Rightarrow> slice \<Rightarrow> nat \<Rightarrow> int \<Rightarrow> panic + store" where
  "reconstructS prevWeight st items 0 w = Inr st"
| "reconstructS prevWeight st items (Suc i) w =
     (case getIdx prevWeight (int i) of
        Inl e \<Rightarrow> Inl e
      | Inr row \<Rightarrow>
          (case getIdx row w of
             Inl e \<Rightarrow> Inl e
           | Inr prevW \<Rightarrow>
               (if w = prevW then reconstructS prevWeight st items i w
                else reconstructS prevWeight (storeSelected st items i True) items i prevW)))"

definition dynamicProgrammingS ::
  "store \<Rightarrow> slice \<Rightarrow> int \<Rightarrow> panic + ((slice \<times> int \<times> int) \<times> store)" where
  "dynamicProgrammingS st items allowedWeight =
     (let numItems = length (sliceContents st items)
      in case sliceContents st items of
           [] \<Rightarrow> Inl IndexOutOfRange
         | item0 # rest \<Rightarrow>
             if allowedWeight + 1 < 0 then Inl MakeSliceLenOutOfRange
             else
               (case fillRows rest allowedWeight (initRow item0 allowedWeight) of
                  Inl e \<Rightarrow> Inl e
                | Inr rows \<Rightarrow>
                    (let table = initRow item0 allowedWeight # rows;
                         solutionValueT = map (map fst) table;
                         prevWeight = map (map snd) table
                     in case reconstructS prevWeight st items numItems allowedWeight of
                          Inl e \<Rightarrow> Inl e
                        | Inr st' \<Rightarrow>
                            (case getIdx solutionValueT (int numItems - 1) of
                               Inl e \<Rightarrow> Inl e
                             | Inr lastRow \<Rightarrow>
                                 (case getIdx lastRow allowedWeight of
                                    Inl e \<Rightarrow> Inl e
                                  | Inr v \<Rightarrow> Inr ((items, v, 1), st'))))))"

section \<open>Specification-side notions\<close>

subsection \<open>Reference optimum\<close>

text \<open>
  The functions below are not part of the program. \<open>pairs\<close> keeps the value and the weight
  of every item, \<open>knap\<close> is the textbook recursion for the best value of a 0/1 knapsack, and
  \<open>nodeOpt\<close> is the best score below a node of the search tree whose first \<open>nextIndex\<close>
  decisions are fixed.
\<close>

declare doExhaustiveSearch.simps [simp del]

declare doBranchAndBound.simps [simp del]

declare doRodsTechnique.simps [simp del]

definition clearSel :: "Item list \<Rightarrow> Item list" where
  "clearSel items = map (\<lambda>it. it\<lparr>isSelected := False\<rparr>) items"

definition pairs :: "Item list \<Rightarrow> (int \<times> int) list" where
  "pairs items = map (\<lambda>it. (item_value it, weight it)) items"

fun knap :: "(int \<times> int) list \<Rightarrow> int \<Rightarrow> int" where
  "knap [] c = 0"
| "knap ((v, w) # xs) c = (if w \<le> c then max (knap xs c) (v + knap xs (c - w)) else knap xs c)"

definition nonneg :: "(int \<times> int) list \<Rightarrow> bool" where
  "nonneg xs = (\<forall>(v, w) \<in> set xs. 0 \<le> v \<and> 0 \<le> w)"

definition nodeOpt :: "Item list \<Rightarrow> int \<Rightarrow> nat \<Rightarrow> int" where
  "nodeOpt items allowedWeight nextIndex =
     sumValues (take nextIndex items) False +
     knap (drop nextIndex (pairs items)) (allowedWeight - sumWeights (take nextIndex items) False)"

subsection \<open>The optimal value, by enumeration of assignments\<close>

text \<open>
  An assignment is a list of booleans, one per item; \<open>optimalValue\<close> says that a value is reached
  by a feasible assignment and exceeded by none.  It is the reading of the optimal 0/1 knapsack
  value that the solvers are compared with.
\<close>

definition assign :: "Item list \<Rightarrow> bool list \<Rightarrow> Item list" where
  "assign items sel = map2 (\<lambda>it b. it\<lparr>isSelected := b\<rparr>) items sel"

definition feasible :: "Item list \<Rightarrow> int \<Rightarrow> bool list \<Rightarrow> bool" where
  "feasible items allowedWeight sel \<longleftrightarrow>
     length sel = length items \<and> sumWeights (assign items sel) False \<le> allowedWeight"

definition optimalValue :: "Item list \<Rightarrow> int \<Rightarrow> int \<Rightarrow> bool" where
  "optimalValue items allowedWeight v \<longleftrightarrow>
     (\<exists>sel. feasible items allowedWeight sel \<and> sumValues (assign items sel) False = v) \<and>
     (\<forall>sel. feasible items allowedWeight sel \<longrightarrow> sumValues (assign items sel) False \<le> v)"

subsection \<open>The two branches of a branch-and-bound node\<close>

text \<open>
  \<open>bbInclude\<close> and \<open>bbExclude\<close> name the two guarded recursive calls in the body of
  \<open>doBranchAndBound\<close>, and \<open>pick\<close> its final comparison.
\<close>

definition bbInclude ::
  "Item list \<Rightarrow> int \<Rightarrow> nat \<Rightarrow> int \<Rightarrow> int \<Rightarrow> int \<Rightarrow> int \<Rightarrow> result \<times> Item list" where
  "bbInclude items allowedWeight nextIndex bestValue currentValue currentWeight remainingValue =
     (if currentWeight + weight (items ! nextIndex) \<le> allowedWeight then
        (let itemsT = setSelected items nextIndex True
         in doBranchAndBound itemsT allowedWeight (nextIndex + 1) bestValue
              (currentValue + item_value (itemsT ! nextIndex))
              (currentWeight + weight (itemsT ! nextIndex))
              (remainingValue - item_value (itemsT ! nextIndex)))
      else ((None, 0, 1), items))"

definition bbExclude ::
  "Item list \<Rightarrow> int \<Rightarrow> nat \<Rightarrow> int \<Rightarrow> int \<Rightarrow> int \<Rightarrow> int \<Rightarrow> result \<times> Item list" where
  "bbExclude items1 allowedWeight nextIndex bestValue1 currentValue currentWeight
       remainingValue =
     (if currentValue + remainingValue - item_value (items1 ! nextIndex) > bestValue1 then
        (let itemsF = setSelected items1 nextIndex False
         in doBranchAndBound itemsF allowedWeight (nextIndex + 1) bestValue1
              currentValue currentWeight
              (remainingValue - item_value (itemsF ! nextIndex)))
      else ((None, 0, 1), items1))"

definition pick :: "result \<Rightarrow> result \<Rightarrow> result" where
  "pick test1 test2 =
     (if valueOf test1 \<ge> valueOf test2
      then (solutionOf test1, valueOf test1, callsOf test1 + callsOf test2 + 1)
      else (solutionOf test2, valueOf test2, callsOf test1 + callsOf test2 + 1))"

subsection \<open>Well-formed results\<close>

text \<open>
  \<open>goodResult\<close> describes a returned triple: a nil selection comes with the value 0, a
  selection has the values and weights of the input, fits the capacity, and its selected values
  add up to the returned value.
\<close>

definition totalValue :: "(int \<times> int) list \<Rightarrow> int" where
  "totalValue ps = sum_list (map fst ps)"

definition goodResult :: "Item list \<Rightarrow> int \<Rightarrow> result \<Rightarrow> bool" where
  "goodResult items allowedWeight r =
     (case solutionOf r of
        None \<Rightarrow> valueOf r = 0
      | Some s \<Rightarrow> pairs s = pairs items \<and> sumWeights s False \<le> allowedWeight \<and>
                  sumValues s False = valueOf r)"

subsection \<open>Invariants of the bounded search\<close>

definition bbPost :: "Item list \<Rightarrow> int \<Rightarrow> nat \<Rightarrow> int \<Rightarrow> result \<Rightarrow> bool" where
  "bbPost items allowedWeight nextIndex bestValue r \<longleftrightarrow>
     0 \<le> valueOf r \<and> valueOf r \<le> nodeOpt items allowedWeight nextIndex \<and>
     (bestValue < nodeOpt items allowedWeight nextIndex \<longrightarrow>
        valueOf r = nodeOpt items allowedWeight nextIndex) \<and>
     goodResult items allowedWeight r"

definition nodePre :: "Item list \<Rightarrow> int \<Rightarrow> nat \<Rightarrow> int \<Rightarrow> int \<Rightarrow> int \<Rightarrow> bool" where
  "nodePre items allowedWeight nextIndex currentValue currentWeight remainingValue \<longleftrightarrow>
     nextIndex \<le> length items \<and> nonneg (pairs items) \<and>
     currentValue = sumValues (take nextIndex items) False \<and>
     currentWeight = sumWeights (take nextIndex items) False \<and>
     currentWeight \<le> allowedWeight \<and>
     remainingValue = totalValue (drop nextIndex (pairs items))"

subsection \<open>The table of the dynamic program\<close>

text \<open>
  \<open>positive\<close> is the precondition on the items; \<open>dpTable\<close> is the table that the row loops
  build when no read is out of range.
\<close>

definition positive :: "Item list \<Rightarrow> bool" where
  "positive items = (\<forall>it \<in> set items. 0 < item_value it \<and> 0 < weight it)"

definition cellSpec :: "Item \<Rightarrow> int list \<Rightarrow> nat \<Rightarrow> int \<times> int" where
  "cellSpec item prevRow w =
     (let valueWithoutI = prevRow ! w;
          valueWithI = (if weight item \<le> int w
                        then prevRow ! nat (int w - weight item) + item_value item else 0)
      in if valueWithoutI \<ge> valueWithI then (valueWithoutI, int w)
         else (valueWithI, int w - weight item))"

fun rowsSpec :: "Item list \<Rightarrow> int \<Rightarrow> (int \<times> int) list \<Rightarrow> (int \<times> int) list list" where
  "rowsSpec [] allowedWeight prevRow = []"
| "rowsSpec (item # rest) allowedWeight prevRow =
     map (cellSpec item (map fst prevRow)) [0..<nat (allowedWeight + 1)]
       # rowsSpec rest allowedWeight
           (map (cellSpec item (map fst prevRow)) [0..<nat (allowedWeight + 1)])"

definition dpTable :: "Item list \<Rightarrow> int \<Rightarrow> (int \<times> int) list list" where
  "dpTable items allowedWeight =
     initRow (hd items) allowedWeight
       # rowsSpec (tl items) allowedWeight (initRow (hd items) allowedWeight)"

subsection \<open>Frame of the reconstruction loop\<close>

definition reconPost :: "Item list \<Rightarrow> nat \<Rightarrow> Item list \<Rightarrow> bool" where
  "reconPost its k its' \<longleftrightarrow>
     length its' = length its \<and> clearSel its' = clearSel its \<and> drop k its' = drop k its \<and>
     (\<forall>i < length its. isSelected (its ! i) \<longrightarrow> isSelected (its' ! i))"

subsection \<open>The two branches of a node of Rod's technique\<close>

text \<open>
  \<open>rodsInclude\<close> is the guarded include call of \<open>doRodsTechnique\<close>; \<open>rodsExclude\<close> is its exclude
  branch: \<open>blockItems\<close>, the recursive call, \<open>unblockItems\<close>.
\<close>

definition rodsInclude ::
  "Item list \<Rightarrow> int \<Rightarrow> nat \<Rightarrow> int \<Rightarrow> int \<Rightarrow> int \<Rightarrow> int \<Rightarrow> panic + (result \<times> Item list)" where
  "rodsInclude items allowedWeight nextIndex bestValue currentValue currentWeight
       remainingValue =
     (if currentWeight + weight (items ! nextIndex) \<le> allowedWeight
         \<and> blockedBy (items ! nextIndex) < 0
      then
        (let itemsT = setSelected items nextIndex True
         in doRodsTechnique itemsT allowedWeight (nextIndex + 1) bestValue
              (currentValue + item_value (itemsT ! nextIndex))
              (currentWeight + weight (itemsT ! nextIndex))
              (remainingValue - item_value (itemsT ! nextIndex)))
      else Inr ((None, 0, 1), items))"

definition rodsExclude ::
  "Item list \<Rightarrow> int \<Rightarrow> nat \<Rightarrow> int \<Rightarrow> int \<Rightarrow> int \<Rightarrow> int \<Rightarrow> panic + (result \<times> Item list)" where
  "rodsExclude items1 allowedWeight nextIndex bestValue1 currentValue currentWeight
       remainingValue =
     (case blockItems (items1 ! nextIndex) items1 of
        Inl e \<Rightarrow> Inl e
      | Inr itemsB \<Rightarrow>
          (let itemsF = setSelected itemsB nextIndex False
           in case doRodsTechnique itemsF allowedWeight (nextIndex + 1) bestValue1
                     currentValue currentWeight
                     (remainingValue - item_value (itemsF ! nextIndex)) of
                Inl e \<Rightarrow> Inl e
              | Inr (test2, items2) \<Rightarrow>
                  (case unblockItems (items2 ! nextIndex) items2 of
                     Inl e \<Rightarrow> Inl e
                   | Inr itemsU \<Rightarrow> Inr (test2, itemsU))))"

subsection \<open>Invariants of the blocking state\<close>

definition dominates :: "Item list \<Rightarrow> nat \<Rightarrow> nat \<Rightarrow> bool" where
  "dominates items i j \<longleftrightarrow>
     i \<noteq> j \<and> item_value (items ! i) \<ge> item_value (items ! j)
           \<and> weight (items ! i) \<le> weight (items ! j)"

definition rodsWf :: "Item list \<Rightarrow> bool" where
  "rodsWf items \<longleftrightarrow>
     (\<forall>i < length items. item_id (items ! i) = int i \<and>
        blockList (items ! i) = dominatedIds items i)"

definition sameBut :: "Item \<Rightarrow> Item \<Rightarrow> bool" where
  "sameBut a b \<longleftrightarrow>
     item_id a = item_id b \<and> blockedBy a = blockedBy b \<and> blockList a = blockList b \<and>
     item_value a = item_value b \<and> weight a = weight b"

definition sameStatic :: "Item \<Rightarrow> Item \<Rightarrow> bool" where
  "sameStatic a b \<longleftrightarrow>
     item_id a = item_id b \<and> blockList a = blockList b \<and>
     item_value a = item_value b \<and> weight a = weight b"

definition rodsFI :: "Item list \<Rightarrow> nat \<Rightarrow> bool" where
  "rodsFI items nextIndex \<longleftrightarrow>
     rodsWf items \<and>
     (\<forall>j < length items. blockedBy (items ! j) = - 1 \<or>
        (0 \<le> blockedBy (items ! j) \<and> blockedBy (items ! j) < int nextIndex))"

definition framed :: "Item list \<Rightarrow> nat \<Rightarrow> Item list \<Rightarrow> bool" where
  "framed items nextIndex items' \<longleftrightarrow>
     length items' = length items \<and> clearSel items' = clearSel items \<and>
     take nextIndex items' = take nextIndex items"

subsection \<open>The optimum under excluded dominators\<close>

definition domBy :: "(int \<times> int) set \<Rightarrow> int \<times> int \<Rightarrow> bool" where
  "domBy E x \<longleftrightarrow> (\<exists>e \<in> E. fst e \<ge> fst x \<and> snd e \<le> snd x)"

fun rknap :: "(int \<times> int) set \<Rightarrow> (int \<times> int) list \<Rightarrow> int \<Rightarrow> int" where
  "rknap E [] c = 0"
| "rknap E (x # xs) c =
     (if snd x \<le> c \<and> \<not> domBy E x
      then max (rknap (insert x E) xs c) (fst x + rknap E xs (c - snd x))
      else rknap (insert x E) xs c)"

fun mval :: "(int \<times> int) list \<Rightarrow> bool list \<Rightarrow> int" where
  "mval (x # xs) (b # bs) = (if b then fst x else 0) + mval xs bs"
| "mval xs bs = 0"

fun mwt :: "(int \<times> int) list \<Rightarrow> bool list \<Rightarrow> int" where
  "mwt (x # xs) (b # bs) = (if b then snd x else 0) + mwt xs bs"
| "mwt xs bs = 0"

subsection \<open>Invariants of Rod's technique\<close>

definition exSet :: "Item list \<Rightarrow> nat \<Rightarrow> (int \<times> int) set" where
  "exSet items nextIndex =
     {(item_value (items ! i), weight (items ! i)) | i. i < nextIndex \<and> \<not> isSelected (items ! i)}"

definition rodsSI :: "Item list \<Rightarrow> nat \<Rightarrow> bool" where
  "rodsSI items nextIndex \<longleftrightarrow>
     (\<forall>j < length items. (0 \<le> blockedBy (items ! j)) =
        (\<exists>i < nextIndex. \<not> isSelected (items ! i) \<and> dominates items i j))"

definition rodsOpt :: "Item list \<Rightarrow> int \<Rightarrow> nat \<Rightarrow> int" where
  "rodsOpt items allowedWeight nextIndex =
     sumValues (take nextIndex items) False +
     rknap (exSet items nextIndex) (drop nextIndex (pairs items))
       (allowedWeight - sumWeights (take nextIndex items) False)"

definition rodsPost :: "Item list \<Rightarrow> int \<Rightarrow> nat \<Rightarrow> int \<Rightarrow> result \<Rightarrow> bool" where
  "rodsPost items allowedWeight nextIndex bestValue r \<longleftrightarrow>
     0 \<le> valueOf r \<and> valueOf r \<le> rodsOpt items allowedWeight nextIndex \<and>
     (bestValue < rodsOpt items allowedWeight nextIndex \<longrightarrow>
        valueOf r = rodsOpt items allowedWeight nextIndex) \<and>
     goodResult items allowedWeight r"

subsection \<open>Items as the generator builds them\<close>

text \<open>
  \<open>makeItems\<close> numbers the items by their index, sets \<open>blockedBy\<close> to \<open>- 1\<close> and \<open>isSelected\<close>
  to false.
\<close>

definition freshIds :: "Item list \<Rightarrow> bool" where
  "freshIds items = (\<forall>i < length items. item_id (items ! i) = int i)"

definition unblocked :: "Item list \<Rightarrow> bool" where
  "unblocked items = (\<forall>it \<in> set items. blockedBy it = - 1)"

definition unselected :: "Item list \<Rightarrow> bool" where
  "unselected items = (\<forall>it \<in> set items. \<not> isSelected it)"

subsection \<open>Frames that do not depend on the blocking state\<close>

text \<open>
  \<open>kept\<close> compares two states of the slice by length, values, weights and the first \<open>k\<close>
  selection flags; \<open>staticSame\<close> by length, ids, block lists, values and weights.
\<close>

definition kept :: "Item list \<Rightarrow> nat \<Rightarrow> Item list \<Rightarrow> bool" where
  "kept items k items' \<longleftrightarrow>
     length items' = length items \<and> pairs items' = pairs items \<and>
     take k (map isSelected items') = take k (map isSelected items)"

definition staticSame :: "Item list \<Rightarrow> Item list \<Rightarrow> bool" where
  "staticSame items items' \<longleftrightarrow>
     length items' = length items \<and> (\<forall>j < length items. sameStatic (items' ! j) (items ! j))"

subsection \<open>Concrete inputs\<close>

text \<open>
  \<open>mkItem\<close> is the item literal of \<open>makeItems\<close>.  \<open>sliceItems\<close> reads a possibly nil slice the way
  \<open>sumWeights\<close> and \<open>printSelected\<close> do: a nil slice has no elements.  \<open>insertionSort\<close> is one
  sorting procedure that can stand for \<open>sort.Slice\<close>.
\<close>

definition mkItem :: "int \<Rightarrow> int \<Rightarrow> int \<Rightarrow> Item" where
  "mkItem i v w =
     \<lparr>item_id = i, blockedBy = - 1, blockList = [], item_value = v, weight = w,
      isSelected = False\<rparr>"

definition scenario :: "Item list" where
  "scenario = [mkItem 0 9 5, mkItem 1 10 4, mkItem 2 7 5, mkItem 3 5 6, mkItem 4 4 5]"

definition twins :: "Item list" where
  "twins = [mkItem 0 1 1, mkItem 1 1 1]"

definition sliceItems :: "Item list option \<Rightarrow> Item list" where
  "sliceItems s = (case s of None \<Rightarrow> [] | Some xs \<Rightarrow> xs)"

fun insertBy :: "('a \<Rightarrow> 'a \<Rightarrow> bool) \<Rightarrow> 'a \<Rightarrow> 'a list \<Rightarrow> 'a list" where
  "insertBy lessFn x [] = [x]"
| "insertBy lessFn x (y # ys) = (if lessFn x y then x # y # ys else y # insertBy lessFn x ys)"

fun insertionSort :: "('a \<Rightarrow> 'a \<Rightarrow> bool) \<Rightarrow> 'a list \<Rightarrow> 'a list" where
  "insertionSort lessFn [] = []"
| "insertionSort lessFn (x # xs) = insertBy lessFn x (insertionSort lessFn xs)"

definition staleItems :: "Item list" where
  "staleItems = [(mkItem 0 1 1)\<lparr>blockedBy := 0\<rparr>]"

definition heavySelected :: "Item list" where
  "heavySelected = [(mkItem 0 1 5)\<lparr>isSelected := True\<rparr>]"

definition lightSelected :: "Item list" where
  "lightSelected = [(mkItem 0 1 1)\<lparr>isSelected := True\<rparr>]"

definition staleDominated :: "Item list" where
  "staleDominated = [mkItem 0 2 1, (mkItem 1 1 2)\<lparr>blockedBy := 0\<rparr>]"

definition tooHeavy :: "Item list" where
  "tooHeavy = [mkItem 0 1 5]"

section \<open>Properties of the solvers\<close>

subsection \<open>Exhaustive search: frame, call count and value\<close>

lemma clearSel_setSelected [simp]: "clearSel (setSelected items i b) = clearSel items"
  by (cases "i < length items")
    (auto simp: clearSel_def setSelected_def list_eq_iff_nth_eq nth_list_update)

lemma take_setSelected [simp]: "take i (setSelected items i b) = take i items"
  by (simp add: setSelected_def)

lemma length_clearSel [simp]: "length (clearSel items) = length items"
  by (simp add: clearSel_def)

lemma clearSel_pairs: "clearSel a = clearSel b \<Longrightarrow> pairs a = pairs b"
proof -
  assume "clearSel a = clearSel b"
  then have "map (\<lambda>it. (item_value it, weight it)) (clearSel a) =
             map (\<lambda>it. (item_value it, weight it)) (clearSel b)" by simp
  then show ?thesis by (simp add: clearSel_def pairs_def comp_def)
qed

lemma pairs_setSelected [simp]: "pairs (setSelected items i b) = pairs items"
  by (rule clearSel_pairs) simp

lemma length_pairs [simp]: "length (pairs items) = length items"
  by (simp add: pairs_def)

lemma take_Suc_eq_take: "take (Suc i) xs = take (Suc i) ys \<Longrightarrow> take i xs = take i ys"
  by (metis take_take min.absorb1 le_add2 plus_1_eq_Suc)

lemma sumValues_append [simp]:
  "sumValues (xs @ ys) b = sumValues xs b + sumValues ys b"
  by (induction xs) auto

lemma sumWeights_append [simp]:
  "sumWeights (xs @ ys) b = sumWeights xs b + sumWeights ys b"
  by (induction xs) auto

lemma take_Suc_setSelected:
  "i < length items \<Longrightarrow>
   take (Suc i) (setSelected items i b) = take i items @ [(items ! i)\<lparr>isSelected := b\<rparr>]"
  by (simp add: setSelected_def take_Suc_conv_app_nth)

lemma nth_setSelected_fields:
  "i < length items \<Longrightarrow> item_value (setSelected items i b ! i) = item_value (items ! i)"
  "i < length items \<Longrightarrow> weight (setSelected items i b ! i) = weight (items ! i)"
  "i < length items \<Longrightarrow> blockedBy (setSelected items i b ! i) = blockedBy (items ! i)"
  "i < length items \<Longrightarrow> blockList (setSelected items i b ! i) = blockList (items ! i)"
  "i < length items \<Longrightarrow> item_id (setSelected items i b ! i) = item_id (items ! i)"
  by (simp_all add: setSelected_def)

lemma drop_pairs_Cons:
  "i < length items \<Longrightarrow>
   drop i (pairs items) = (item_value (items ! i), weight (items ! i)) # drop (Suc i) (pairs items)"
  by (simp add: pairs_def Cons_nth_drop_Suc[symmetric])

lemma knap_nonneg: "nonneg xs \<Longrightarrow> 0 \<le> knap xs c"
  by (induction xs c rule: knap.induct) (auto simp: nonneg_def)

lemma nonneg_drop: "nonneg xs \<Longrightarrow> nonneg (drop i xs)"
  by (auto simp: nonneg_def dest: in_set_dropD)

lemma sumValues_nonneg: "nonneg (pairs items) \<Longrightarrow> 0 \<le> sumValues items b"
  by (induction items) (auto simp: nonneg_def pairs_def)

lemma sumWeights_nonneg: "nonneg (pairs items) \<Longrightarrow> 0 \<le> sumWeights items b"
  by (induction items) (auto simp: nonneg_def pairs_def)

lemma nonneg_take: "nonneg (pairs items) \<Longrightarrow> nonneg (pairs (take i items))"
  by (auto simp: nonneg_def pairs_def dest: in_set_takeD)

lemma nonneg_nth:
  "nonneg (pairs items) \<Longrightarrow> i < length items \<Longrightarrow>
   0 \<le> item_value (items ! i) \<and> 0 \<le> weight (items ! i)"
  by (force simp: nonneg_def pairs_def)

lemma doExhaustiveSearch_leaf:
  "length items \<le> nextIndex \<Longrightarrow>
   doExhaustiveSearch items allowedWeight nextIndex =
     ((Some items, solutionValue items allowedWeight, 1), items)"
  by (simp add: doExhaustiveSearch.simps[of items] copyItems_def)

lemma doExhaustiveSearch_node:
  assumes "nextIndex < length items"
    and "doExhaustiveSearch (setSelected items nextIndex True) allowedWeight (Suc nextIndex)
           = (withRes, items2)"
    and "doExhaustiveSearch (setSelected items2 nextIndex False) allowedWeight (Suc nextIndex)
           = (withoutRes, items4)"
  shows "doExhaustiveSearch items allowedWeight nextIndex =
     ((if valueOf withRes > valueOf withoutRes
       then (solutionOf withRes, valueOf withRes, callsOf withRes + callsOf withoutRes + 1)
       else (solutionOf withoutRes, valueOf withoutRes,
             callsOf withRes + callsOf withoutRes + 1)), items4)"
  using assms
  by (simp add: doExhaustiveSearch.simps[of items] Let_def valueOf_def solutionOf_def
      callsOf_def split: prod.splits)

lemma doExhaustiveSearch_cases [case_names leaf node]:
  assumes "\<And>items allowedWeight nextIndex. length items \<le> nextIndex \<Longrightarrow> P items allowedWeight nextIndex"
    and "\<And>items allowedWeight nextIndex withRes items2 withoutRes items4.
           nextIndex < length items \<Longrightarrow>
           doExhaustiveSearch (setSelected items nextIndex True) allowedWeight (Suc nextIndex)
             = (withRes, items2) \<Longrightarrow>
           doExhaustiveSearch (setSelected items2 nextIndex False) allowedWeight
             (Suc nextIndex) = (withoutRes, items4) \<Longrightarrow>
           P (setSelected items nextIndex True) allowedWeight (Suc nextIndex) \<Longrightarrow>
           P (setSelected items2 nextIndex False) allowedWeight (Suc nextIndex) \<Longrightarrow>
           P items allowedWeight nextIndex"
  shows "P items allowedWeight nextIndex"
proof (induction items allowedWeight nextIndex rule: doExhaustiveSearch.induct)
  case (1 items allowedWeight nextIndex)
  show ?case
  proof (cases "length items \<le> nextIndex")
    case True
    then show ?thesis by (rule assms(1))
  next
    case False
    obtain withRes items2 where w:
      "doExhaustiveSearch (setSelected items nextIndex True) allowedWeight (nextIndex + 1)
         = (withRes, items2)"
      by (cases "doExhaustiveSearch (setSelected items nextIndex True) allowedWeight
          (nextIndex + 1)")
    obtain withoutRes items4 where wo:
      "doExhaustiveSearch (setSelected items2 nextIndex False) allowedWeight (nextIndex + 1)
         = (withoutRes, items4)"
      by (cases "doExhaustiveSearch (setSelected items2 nextIndex False) allowedWeight
          (nextIndex + 1)")
    have lt: "nextIndex < length items" using False by simp
    have w': "doExhaustiveSearch (setSelected items nextIndex True) allowedWeight
        (Suc nextIndex) = (withRes, items2)" using w by simp
    have wo': "doExhaustiveSearch (setSelected items2 nextIndex False) allowedWeight
        (Suc nextIndex) = (withoutRes, items4)" using wo by simp
    have ih1: "P (setSelected items nextIndex True) allowedWeight (Suc nextIndex)"
      using "1.IH"(1)[OF False refl] by simp
    have ih2: "P (setSelected items2 nextIndex False) allowedWeight (Suc nextIndex)"
      using "1.IH"(2)[OF False refl w[symmetric] refl refl] by simp
    show ?thesis by (rule assms(2)[OF lt w' wo' ih1 ih2])
  qed
qed

lemma doExhaustiveSearch_frame:
  "length (snd (doExhaustiveSearch items allowedWeight nextIndex)) = length items \<and>
   clearSel (snd (doExhaustiveSearch items allowedWeight nextIndex)) = clearSel items \<and>
   take nextIndex (snd (doExhaustiveSearch items allowedWeight nextIndex)) = take nextIndex items"
proof (induction items allowedWeight nextIndex rule: doExhaustiveSearch_cases)
  case (leaf items allowedWeight nextIndex)
  then show ?case by (simp add: doExhaustiveSearch_leaf)
next
  case (node items allowedWeight nextIndex withRes items2 withoutRes items4)
  have "take nextIndex items4 = take nextIndex items"
    using node by (metis take_Suc_eq_take snd_conv take_setSelected)
  then show ?case
    using node by (simp add: doExhaustiveSearch_node[OF node(1,2,3)])
qed

lemma doExhaustiveSearch_calls:
  "callsOf (fst (doExhaustiveSearch items allowedWeight nextIndex)) =
     2 ^ (length items - nextIndex + 1) - 1"
proof (induction items allowedWeight nextIndex rule: doExhaustiveSearch_cases)
  case (leaf items allowedWeight nextIndex)
  then show ?case by (simp add: doExhaustiveSearch_leaf callsOf_def)
next
  case (node items allowedWeight nextIndex withRes items2 withoutRes items4)
  have l2: "length items2 = length items"
    using doExhaustiveSearch_frame[of "setSelected items nextIndex True" allowedWeight
        "Suc nextIndex"] node(2) by simp
  have e: "length items - nextIndex = Suc (length items - Suc nextIndex)"
    using node(1) by simp
  show ?case
    using node(4,5) l2
    by (simp add: doExhaustiveSearch_node[OF node(1,2,3)] callsOf_def node(2,3) e)
qed

lemma doExhaustiveSearch_solution:
  "\<exists>s. solutionOf (fst (doExhaustiveSearch items allowedWeight nextIndex)) = Some s \<and>
       clearSel s = clearSel items \<and>
       valueOf (fst (doExhaustiveSearch items allowedWeight nextIndex)) =
         solutionValue s allowedWeight"
proof (induction items allowedWeight nextIndex rule: doExhaustiveSearch_cases)
  case (leaf items allowedWeight nextIndex)
  then show ?case by (simp add: doExhaustiveSearch_leaf solutionOf_def valueOf_def)
next
  case (node items allowedWeight nextIndex withRes items2 withoutRes items4)
  have c2: "clearSel items2 = clearSel items"
    using doExhaustiveSearch_frame[of "setSelected items nextIndex True" allowedWeight
        "Suc nextIndex"] node(2) by simp
  show ?case
    using node(4,5) c2
    by (auto simp: doExhaustiveSearch_node[OF node(1,2,3)] node(2,3) solutionOf_def
        valueOf_def)
qed

lemma doExhaustiveSearch_value:
  "nextIndex \<le> length items \<Longrightarrow> nonneg (pairs items) \<Longrightarrow>
   valueOf (fst (doExhaustiveSearch items allowedWeight nextIndex)) =
     (if sumWeights (take nextIndex items) False \<le> allowedWeight
      then nodeOpt items allowedWeight nextIndex else - 1)"
proof (induction items allowedWeight nextIndex rule: doExhaustiveSearch_cases)
  case (leaf items allowedWeight nextIndex)
  then show ?case
    by (simp add: doExhaustiveSearch_leaf valueOf_def solutionValue_def nodeOpt_def)
next
  case (node items allowedWeight nextIndex withRes items2 withoutRes items4)
  let ?it = "items ! nextIndex"
  let ?cw = "sumWeights (take nextIndex items) False"
  let ?cv = "sumValues (take nextIndex items) False"
  let ?rest = "drop (Suc nextIndex) (pairs items)"
  have fr: "length items2 = length items" "clearSel items2 = clearSel items"
    "take (Suc nextIndex) items2 = take (Suc nextIndex) (setSelected items nextIndex True)"
    using doExhaustiveSearch_frame[of "setSelected items nextIndex True" allowedWeight
        "Suc nextIndex"] node(2) by simp_all
  have p2: "pairs items2 = pairs items" using fr(2) by (rule clearSel_pairs)
  have t2: "take nextIndex items2 = take nextIndex items"
    using fr(3) by (metis take_Suc_eq_take take_setSelected)
  have n2: "items2 ! nextIndex = ?it\<lparr>isSelected := True\<rparr>"
    using fr(3) node(1) by (metis lessI nth_take nth_list_update_eq setSelected_def)
  have pos: "0 \<le> item_value ?it" "0 \<le> weight ?it"
    using nonneg_nth[OF node.prems(2) node(1)] by simp_all
  have cvpos: "0 \<le> ?cv" using sumValues_nonneg[OF nonneg_take[OF node.prems(2)]] .
  have kpos: "\<And>c. 0 \<le> knap ?rest c"
    using knap_nonneg[OF nonneg_drop] node.prems(2) by blast
  have v1: "valueOf withRes =
      (if ?cw + weight ?it \<le> allowedWeight
       then ?cv + item_value ?it + knap ?rest (allowedWeight - (?cw + weight ?it)) else - 1)"
    using node(4) node.prems node(1)
    by (simp add: node(2) take_Suc_setSelected nodeOpt_def)
  have v2: "valueOf withoutRes =
      (if ?cw \<le> allowedWeight then ?cv + knap ?rest (allowedWeight - ?cw) else - 1)"
    using node(5) node.prems node(1) fr(1) p2 t2 n2
    by (simp add: node(3) take_Suc_setSelected nodeOpt_def)
  have d: "drop nextIndex (pairs items) = (item_value ?it, weight ?it) # ?rest"
    using node(1) by (rule drop_pairs_Cons)
  show ?case
    unfolding doExhaustiveSearch_node[OF node(1,2,3)] nodeOpt_def d
    using v1 v2 pos cvpos kpos[of "allowedWeight - ?cw"]
      kpos[of "allowedWeight - (?cw + weight ?it)"]
    by (auto simp: valueOf_def max_def algebra_simps)
qed

subsection \<open>The reference optimum is optimal\<close>

lemma assign_Nil [simp]: "assign [] sel = []"
  by (simp add: assign_def)

lemma assign_Cons [simp]: "assign (it # items) (b # sel) = it\<lparr>isSelected := b\<rparr> # assign items sel"
  by (simp add: assign_def)

lemma pairs_Cons [simp]: "pairs (it # items) = (item_value it, weight it) # pairs items"
  by (simp add: pairs_def)

lemma pairs_Nil [simp]: "pairs [] = []"
  by (simp add: pairs_def)

lemma nonneg_Cons [simp]: "nonneg ((v, w) # xs) \<longleftrightarrow> 0 \<le> v \<and> 0 \<le> w \<and> nonneg xs"
  by (auto simp: nonneg_def)

lemma nonneg_Nil [simp]: "nonneg []"
  by (simp add: nonneg_def)

lemma knap_achieved:
  "0 \<le> c \<Longrightarrow>
   \<exists>sel. length sel = length items \<and> sumWeights (assign items sel) False \<le> c \<and>
         sumValues (assign items sel) False = knap (pairs items) c"
proof (induction items arbitrary: c)
  case Nil
  then show ?case by simp
next
  case (Cons it items)
  show ?case
  proof (cases "weight it \<le> c \<and> knap (pairs items) c < item_value it + knap (pairs items) (c - weight it)")
    case True
    then have "0 \<le> c - weight it" by simp
    from Cons.IH[OF this] obtain sel where
      "length sel = length items" "sumWeights (assign items sel) False \<le> c - weight it"
      "sumValues (assign items sel) False = knap (pairs items) (c - weight it)" by blast
    with True show ?thesis
      by (intro exI[of _ "True # sel"]) (simp add: max_def)
  next
    case False
    from Cons.IH[OF Cons.prems] obtain sel where
      "length sel = length items" "sumWeights (assign items sel) False \<le> c"
      "sumValues (assign items sel) False = knap (pairs items) c" by blast
    with False show ?thesis
      by (intro exI[of _ "False # sel"]) (auto simp: max_def)
  qed
qed

lemma sumWeights_assign_nonneg:
  "nonneg (pairs items) \<Longrightarrow> length sel = length items \<Longrightarrow>
   0 \<le> sumWeights (assign items sel) False"
proof (induction items arbitrary: sel)
  case Nil
  then show ?case by simp
next
  case (Cons it items)
  then obtain b bs where "sel = b # bs" by (cases sel) auto
  with Cons show ?case by (auto simp: add_nonneg_nonneg)
qed

lemma knap_upper:
  "nonneg (pairs items) \<Longrightarrow> length sel = length items \<Longrightarrow>
   sumWeights (assign items sel) False \<le> c \<Longrightarrow>
   sumValues (assign items sel) False \<le> knap (pairs items) c"
proof (induction items arbitrary: sel c)
  case Nil
  then show ?case by simp
next
  case (Cons it items)
  then obtain b bs where s: "sel = b # bs" by (cases sel) auto
  have w0: "0 \<le> sumWeights (assign items bs) False"
    using sumWeights_assign_nonneg[of items bs] Cons.prems s by simp
  show ?case
  proof (cases b)
    case True
    with Cons.prems s w0 have "weight it \<le> c"
      "sumWeights (assign items bs) False \<le> c - weight it" by simp_all
    with Cons.IH[of bs "c - weight it"] Cons.prems s True show ?thesis by simp
  next
    case False
    with Cons.IH[of bs c] Cons.prems s show ?thesis by (simp add: max_def)
  qed
qed

lemma knap_optimal:
  "nonneg (pairs items) \<Longrightarrow> 0 \<le> allowedWeight \<Longrightarrow>
   optimalValue items allowedWeight (knap (pairs items) allowedWeight)"
  unfolding optimalValue_def feasible_def
  using knap_achieved[of allowedWeight items] knap_upper[of items _ allowedWeight]
  by blast

lemma optimalValue_unique:
  "optimalValue items allowedWeight v \<Longrightarrow> optimalValue items allowedWeight v' \<Longrightarrow> v = v'"
  unfolding optimalValue_def by (meson order_antisym)

lemma knap_swap:
  "0 \<le> snd x \<Longrightarrow> 0 \<le> snd y \<Longrightarrow> knap (x # y # zs) c = knap (y # x # zs) c"
  by (cases x; cases y) (auto simp: max_def algebra_simps)

lemma knap_cong_tail:
  "(\<And>c. knap xs c = knap ys c) \<Longrightarrow> knap (x # xs) c = knap (x # ys) c"
  by (cases x) simp

lemma knap_move_front:
  "0 \<le> snd x \<Longrightarrow> \<forall>a \<in> set as. 0 \<le> snd a \<Longrightarrow> knap (as @ x # bs) c = knap (x # as @ bs) c"
proof (induction as arbitrary: c)
  case Nil
  show ?case by simp
next
  case (Cons a as)
  have "knap (a # as @ x # bs) c = knap (a # x # as @ bs) c"
    by (rule knap_cong_tail) (rule Cons.IH, use Cons.prems in auto)
  also have "\<dots> = knap (x # a # as @ bs) c"
    by (rule knap_swap) (use Cons.prems in auto)
  finally show ?case by simp
qed

lemma knap_mset:
  "mset xs = mset ys \<Longrightarrow> \<forall>a \<in> set xs. 0 \<le> snd a \<Longrightarrow> knap xs c = knap ys c"
proof (induction xs arbitrary: ys c)
  case Nil
  then show ?case by simp
next
  case (Cons x xs)
  then have "x \<in> set ys" by (metis list.set_intros(1) mset_eq_setD)
  then obtain as bs where ys: "ys = as @ x # bs" by (meson split_list)
  with Cons.prems have m: "mset xs = mset (as @ bs)" by simp
  have "set ys = set (x # xs)" using Cons.prems(1) by (metis mset_eq_setD)
  then have pos: "0 \<le> snd x" "\<forall>a \<in> set as. 0 \<le> snd a"
    using Cons.prems(2) ys by auto
  have "\<And>c. knap xs c = knap (as @ bs) c"
    by (rule Cons.IH[OF m]) (use Cons.prems in auto)
  then have "knap (x # xs) c = knap (x # as @ bs) c" by (rule knap_cong_tail)
  then show ?case by (simp only: ys knap_move_front[OF pos])
qed

lemma exhaustiveSearch_value:
  "nonneg (pairs items) \<Longrightarrow> 0 \<le> allowedWeight \<Longrightarrow>
   valueOf (fst (exhaustiveSearch items allowedWeight)) = knap (pairs items) allowedWeight"
  using doExhaustiveSearch_value[of 0 items allowedWeight]
  by (simp add: exhaustiveSearch_def nodeOpt_def)

subsection \<open>Branch and bound: node equations\<close>

lemma doBranchAndBound_leaf:
  "length items \<le> nextIndex \<Longrightarrow>
   doBranchAndBound items allowedWeight nextIndex bestValue currentValue currentWeight
     remainingValue = ((Some items, solutionValue items allowedWeight, 1), items)"
  by (simp add: doBranchAndBound.simps[of items] copyItems_def)

lemma doBranchAndBound_pruned:
  "nextIndex < length items \<Longrightarrow> currentValue + remainingValue < bestValue \<Longrightarrow>
   doBranchAndBound items allowedWeight nextIndex bestValue currentValue currentWeight
     remainingValue = ((None, 0, 1), items)"
  by (simp add: doBranchAndBound.simps[of items])

lemma doBranchAndBound_unfold:
  assumes "nextIndex < length items"
    and "\<not> currentValue + remainingValue < bestValue"
  shows "doBranchAndBound items allowedWeight nextIndex bestValue currentValue currentWeight
     remainingValue =
     (let (test1, items1) =
            bbInclude items allowedWeight nextIndex bestValue currentValue currentWeight
              remainingValue;
          bestValue1 = (if valueOf test1 > bestValue then valueOf test1 else bestValue);
          (test2, items2) =
            bbExclude items1 allowedWeight nextIndex bestValue1 currentValue currentWeight
              remainingValue;
          (test1Solution, test1Value, test1Calls) = test1;
          (test2Solution, test2Value, test2Calls) = test2
      in if test1Value \<ge> test2Value
         then ((test1Solution, test1Value, test1Calls + test2Calls + 1), items2)
         else ((test2Solution, test2Value, test1Calls + test2Calls + 1), items2))"
proof -
  have n: "\<not> length items \<le> nextIndex" using assms(1) by simp
  show ?thesis
    apply (subst doBranchAndBound.simps)
    apply (simp only: n assms(2) if_False)
    apply (simp only: bbInclude_def bbExclude_def)
    done
qed

lemma doBranchAndBound_node:
  assumes "nextIndex < length items"
    and "\<not> currentValue + remainingValue < bestValue"
    and "bbInclude items allowedWeight nextIndex bestValue currentValue currentWeight
           remainingValue = (test1, items1)"
    and "bbExclude items1 allowedWeight nextIndex (max bestValue (valueOf test1))
           currentValue currentWeight remainingValue = (test2, items2)"
  shows "doBranchAndBound items allowedWeight nextIndex bestValue currentValue currentWeight
     remainingValue = (pick test1 test2, items2)"
proof -
  have m: "(if bestValue < valueOf test1 then valueOf test1 else bestValue)
      = max bestValue (valueOf test1)" by (simp add: max_def)
  show ?thesis
    unfolding doBranchAndBound_unfold[OF assms(1,2)]
    apply (simp only: assms(3) Let_def prod.case m assms(4))
    apply (simp add: pick_def valueOf_def solutionOf_def callsOf_def split_beta)
    done
qed

lemma doBranchAndBound_cases [case_names leaf pruned node]:
  assumes "\<And>items allowedWeight nextIndex bestValue currentValue currentWeight remainingValue.
      length items \<le> nextIndex \<Longrightarrow>
      P items allowedWeight nextIndex bestValue currentValue currentWeight remainingValue"
    and "\<And>items allowedWeight nextIndex bestValue currentValue currentWeight remainingValue.
      nextIndex < length items \<Longrightarrow> currentValue + remainingValue < bestValue \<Longrightarrow>
      P items allowedWeight nextIndex bestValue currentValue currentWeight remainingValue"
    and "\<And>items allowedWeight nextIndex bestValue currentValue currentWeight remainingValue
        test1 items1 test2 items2.
      nextIndex < length items \<Longrightarrow> \<not> currentValue + remainingValue < bestValue \<Longrightarrow>
      bbInclude items allowedWeight nextIndex bestValue currentValue currentWeight
        remainingValue = (test1, items1) \<Longrightarrow>
      bbExclude items1 allowedWeight nextIndex (max bestValue (valueOf test1))
        currentValue currentWeight remainingValue = (test2, items2) \<Longrightarrow>
      (currentWeight + weight (items ! nextIndex) \<le> allowedWeight \<Longrightarrow>
       P (setSelected items nextIndex True) allowedWeight (Suc nextIndex) bestValue
         (currentValue + item_value (items ! nextIndex))
         (currentWeight + weight (items ! nextIndex))
         (remainingValue - item_value (items ! nextIndex))) \<Longrightarrow>
      (currentValue + remainingValue - item_value (items1 ! nextIndex)
         > max bestValue (valueOf test1) \<Longrightarrow>
       P (setSelected items1 nextIndex False) allowedWeight (Suc nextIndex)
         (max bestValue (valueOf test1)) currentValue currentWeight
         (remainingValue - item_value (setSelected items1 nextIndex False ! nextIndex))) \<Longrightarrow>
      P items allowedWeight nextIndex bestValue currentValue currentWeight remainingValue"
  shows "P items allowedWeight nextIndex bestValue currentValue currentWeight remainingValue"
proof (induction items allowedWeight nextIndex bestValue currentValue currentWeight
    remainingValue rule: doBranchAndBound.induct)
  case (1 items allowedWeight nextIndex bestValue currentValue currentWeight remainingValue)
  show ?case
  proof (cases "length items \<le> nextIndex")
    case True
    then show ?thesis by (rule assms(1))
  next
    case False
    then have lt: "nextIndex < length items" by simp
    show ?thesis
    proof (cases "currentValue + remainingValue < bestValue")
      case True
      with lt show ?thesis by (rule assms(2))
    next
      case np: False
      obtain test1 items1 where i: "bbInclude items allowedWeight nextIndex bestValue
          currentValue currentWeight remainingValue = (test1, items1)"
        by (cases "bbInclude items allowedWeight nextIndex bestValue
          currentValue currentWeight remainingValue")
      obtain test2 items2 where e: "bbExclude items1 allowedWeight nextIndex
          (max bestValue (valueOf test1)) currentValue currentWeight remainingValue
          = (test2, items2)"
        by (cases "bbExclude items1 allowedWeight nextIndex
          (max bestValue (valueOf test1)) currentValue currentWeight remainingValue")
      have m: "(if bestValue < valueOf test1 then valueOf test1 else bestValue)
          = max bestValue (valueOf test1)" by (simp add: max_def)
      have ih1: "P (setSelected items nextIndex True) allowedWeight (Suc nextIndex) bestValue
         (currentValue + item_value (items ! nextIndex))
         (currentWeight + weight (items ! nextIndex))
         (remainingValue - item_value (items ! nextIndex))"
        if "currentWeight + weight (items ! nextIndex) \<le> allowedWeight"
        using "1.IH"(1)[OF False np that refl] lt by (simp add: nth_setSelected_fields)
      have ih2: "P (setSelected items1 nextIndex False) allowedWeight (Suc nextIndex)
         (max bestValue (valueOf test1)) currentValue currentWeight
         (remainingValue - item_value (setSelected items1 nextIndex False ! nextIndex))"
        if "currentValue + remainingValue - item_value (items1 ! nextIndex)
             > max bestValue (valueOf test1)"
        using "1.IH"(2)[OF False np refl i[unfolded bbInclude_def, symmetric] refl _ refl]
          that by (simp add: m)
      show ?thesis by (rule assms(3)[OF lt np i e ih1 ih2])
    qed
  qed
qed

subsection \<open>Branch and bound: frame and call count\<close>

lemma sumValues_True: "sumValues items True = totalValue (pairs items)"
  by (induction items) (simp_all add: totalValue_def)

lemma knap_le_total: "nonneg xs \<Longrightarrow> knap xs c \<le> totalValue xs"
proof (induction xs arbitrary: c)
  case Nil
  show ?case by (simp add: totalValue_def)
next
  case (Cons x xs)
  obtain v w where x: "x = (v, w)" by (cases x)
  from Cons.prems x have "nonneg xs" "0 \<le> v" by simp_all
  with Cons.IH[of c] Cons.IH[of "c - w"] x show ?case
    by (simp add: totalValue_def max_def)
qed

lemma two_power_bound: "(1::int) \<le> 2 ^ (n + 1) - 1"
proof -
  have "(1::int) \<le> 2 ^ n" by simp
  moreover have "(2::int) ^ (n + 1) = 2 * 2 ^ n" by simp
  ultimately show ?thesis by linarith
qed

lemma pairs_nth:
  "pairs a = pairs b \<Longrightarrow> i < length a \<Longrightarrow>
   item_value (a ! i) = item_value (b ! i) \<and> weight (a ! i) = weight (b ! i)"
proof -
  assume p: "pairs a = pairs b" and i: "i < length a"
  then have "length b = length a" by (metis length_pairs)
  with i have "pairs a ! i = (item_value (a ! i), weight (a ! i))"
    "pairs b ! i = (item_value (b ! i), weight (b ! i))" by (simp_all add: pairs_def)
  with p show ?thesis by simp
qed

lemma bbInclude_fits:
  "nextIndex < length items \<Longrightarrow> currentWeight + weight (items ! nextIndex) \<le> allowedWeight \<Longrightarrow>
   bbInclude items allowedWeight nextIndex bestValue currentValue currentWeight remainingValue =
   doBranchAndBound (setSelected items nextIndex True) allowedWeight (Suc nextIndex) bestValue
     (currentValue + item_value (items ! nextIndex))
     (currentWeight + weight (items ! nextIndex))
     (remainingValue - item_value (items ! nextIndex))"
  by (simp add: bbInclude_def Let_def nth_setSelected_fields)

lemma bbInclude_skip:
  "\<not> currentWeight + weight (items ! nextIndex) \<le> allowedWeight \<Longrightarrow>
   bbInclude items allowedWeight nextIndex bestValue currentValue currentWeight remainingValue =
   ((None, 0, 1), items)"
  by (simp add: bbInclude_def)

lemma bbExclude_go:
  "currentValue + remainingValue - item_value (items1 ! nextIndex) > bestValue1 \<Longrightarrow>
   bbExclude items1 allowedWeight nextIndex bestValue1 currentValue currentWeight
     remainingValue =
   doBranchAndBound (setSelected items1 nextIndex False) allowedWeight (Suc nextIndex)
     bestValue1 currentValue currentWeight
     (remainingValue - item_value (setSelected items1 nextIndex False ! nextIndex))"
  by (simp add: bbExclude_def Let_def)

lemma bbExclude_skip:
  "\<not> currentValue + remainingValue - item_value (items1 ! nextIndex) > bestValue1 \<Longrightarrow>
   bbExclude items1 allowedWeight nextIndex bestValue1 currentValue currentWeight
     remainingValue = ((None, 0, 1), items1)"
  by (simp add: bbExclude_def)

lemma doBranchAndBound_frame:
  "length (snd (doBranchAndBound items allowedWeight nextIndex bestValue currentValue
      currentWeight remainingValue)) = length items \<and>
   clearSel (snd (doBranchAndBound items allowedWeight nextIndex bestValue currentValue
      currentWeight remainingValue)) = clearSel items \<and>
   take nextIndex (snd (doBranchAndBound items allowedWeight nextIndex bestValue currentValue
      currentWeight remainingValue)) = take nextIndex items"
proof (induction items allowedWeight nextIndex bestValue currentValue currentWeight
    remainingValue rule: doBranchAndBound_cases)
  case (leaf items allowedWeight nextIndex bestValue currentValue currentWeight remainingValue)
  then show ?case by (simp add: doBranchAndBound_leaf)
next
  case (pruned items allowedWeight nextIndex bestValue currentValue currentWeight
      remainingValue)
  then show ?case by (simp add: doBranchAndBound_pruned)
next
  case (node items allowedWeight nextIndex bestValue currentValue currentWeight remainingValue
      test1 items1 test2 items2)
  have f1: "length items1 = length items \<and> clearSel items1 = clearSel items \<and>
      take nextIndex items1 = take nextIndex items"
  proof (cases "currentWeight + weight (items ! nextIndex) \<le> allowedWeight")
    case True
    from node(5)[OF True] node(3) node(1) True
    have "length items1 = length items \<and> clearSel items1 = clearSel items \<and>
      take (Suc nextIndex) items1 = take (Suc nextIndex) (setSelected items nextIndex True)"
      by (simp add: bbInclude_fits)
    then show ?thesis by (metis take_Suc_eq_take take_setSelected)
  next
    case False
    with node(3) show ?thesis by (simp add: bbInclude_skip)
  qed
  have f2: "length items2 = length items1 \<and> clearSel items2 = clearSel items1 \<and>
      take nextIndex items2 = take nextIndex items1"
  proof (cases "currentValue + remainingValue - item_value (items1 ! nextIndex)
      > max bestValue (valueOf test1)")
    case True
    from node(6)[OF True] node(4) True
    have "length items2 = length items1 \<and> clearSel items2 = clearSel items1 \<and>
      take (Suc nextIndex) items2 = take (Suc nextIndex) (setSelected items1 nextIndex False)"
      by (simp add: bbExclude_go)
    then show ?thesis by (metis take_Suc_eq_take take_setSelected)
  next
    case False
    with node(4) show ?thesis by (simp add: bbExclude_skip)
  qed
  show ?case
    using f1 f2 by (simp add: doBranchAndBound_node[OF node(1,2,3,4)])
qed

lemma bbInclude_frame:
  assumes "nextIndex < length items"
    and "bbInclude items allowedWeight nextIndex bestValue currentValue currentWeight
           remainingValue = (test1, items1)"
  shows "length items1 = length items" "clearSel items1 = clearSel items"
    "take nextIndex items1 = take nextIndex items"
proof -
  have "length items1 = length items \<and> clearSel items1 = clearSel items \<and>
      take nextIndex items1 = take nextIndex items"
  proof (cases "currentWeight + weight (items ! nextIndex) \<le> allowedWeight")
    case True
    have "length items1 = length items \<and> clearSel items1 = clearSel items \<and>
      take (Suc nextIndex) items1 = take (Suc nextIndex) (setSelected items nextIndex True)"
      using doBranchAndBound_frame[of "setSelected items nextIndex True" allowedWeight
          "Suc nextIndex" bestValue "currentValue + item_value (items ! nextIndex)"
          "currentWeight + weight (items ! nextIndex)"
          "remainingValue - item_value (items ! nextIndex)"]
        assms True by (simp add: bbInclude_fits)
    then show ?thesis by (metis take_Suc_eq_take take_setSelected)
  next
    case False
    with assms show ?thesis by (simp add: bbInclude_skip)
  qed
  then show "length items1 = length items" "clearSel items1 = clearSel items"
    "take nextIndex items1 = take nextIndex items" by simp_all
qed

lemma doBranchAndBound_calls:
  "1 \<le> callsOf (fst (doBranchAndBound items allowedWeight nextIndex bestValue currentValue
      currentWeight remainingValue)) \<and>
   callsOf (fst (doBranchAndBound items allowedWeight nextIndex bestValue currentValue
      currentWeight remainingValue)) \<le> 2 ^ (length items - nextIndex + 1) - 1"
proof (induction items allowedWeight nextIndex bestValue currentValue currentWeight
    remainingValue rule: doBranchAndBound_cases)
  case (leaf items allowedWeight nextIndex bestValue currentValue currentWeight remainingValue)
  then show ?case by (simp add: doBranchAndBound_leaf callsOf_def)
next
  case (pruned items allowedWeight nextIndex bestValue currentValue currentWeight
      remainingValue)
  have "(1::int) \<le> 2 ^ (length items - nextIndex + 1) - 1"
    by (rule two_power_bound)
  with pruned show ?case by (simp add: doBranchAndBound_pruned callsOf_def)
next
  case (node items allowedWeight nextIndex bestValue currentValue currentWeight remainingValue
      test1 items1 test2 items2)
  let ?b = "(2::int) ^ (length items - Suc nextIndex + 1) - 1"
  have b1: "(1::int) \<le> ?b" by (rule two_power_bound)
  have l1: "length items1 = length items" using bbInclude_frame(1)[OF node(1,3)] .
  have c1: "1 \<le> callsOf test1 \<and> callsOf test1 \<le> ?b"
  proof (cases "currentWeight + weight (items ! nextIndex) \<le> allowedWeight")
    case True
    from node(5)[OF True] node(3) node(1) True show ?thesis
      by (simp add: bbInclude_fits)
  next
    case False
    with node(3) b1 show ?thesis by (auto simp: bbInclude_skip callsOf_def)
  qed
  have c2: "1 \<le> callsOf test2 \<and> callsOf test2 \<le> ?b"
  proof (cases "currentValue + remainingValue - item_value (items1 ! nextIndex)
      > max bestValue (valueOf test1)")
    case True
    from node(6)[OF True] node(4) True l1 show ?thesis
      by (simp add: bbExclude_go)
  next
    case False
    with node(4) b1 show ?thesis by (auto simp: bbExclude_skip callsOf_def)
  qed
  have e: "length items - nextIndex = Suc (length items - Suc nextIndex)"
    using node(1) by simp
  have "callsOf (pick test1 test2) = callsOf test1 + callsOf test2 + 1"
    by (simp add: pick_def callsOf_def)
  with c1 c2 show ?case
    by (simp add: doBranchAndBound_node[OF node(1,2,3,4)] e)
qed

subsection \<open>Branch and bound: the returned value\<close>

lemma goodResult_cong:
  "pairs items' = pairs items \<Longrightarrow> goodResult items' allowedWeight r \<Longrightarrow>
   goodResult items allowedWeight r"
  by (simp add: goodResult_def split: option.splits)

lemma goodResult_None [simp]: "goodResult items allowedWeight (None, 0, c)"
  by (simp add: goodResult_def solutionOf_def valueOf_def)

lemma goodResult_pick:
  "goodResult items allowedWeight test1 \<Longrightarrow> goodResult items allowedWeight test2 \<Longrightarrow>
   goodResult items allowedWeight (pick test1 test2)"
  by (auto simp: goodResult_def pick_def solutionOf_def valueOf_def split: option.splits)

lemma valueOf_pick: "valueOf (pick test1 test2) = max (valueOf test1) (valueOf test2)"
  by (simp add: pick_def valueOf_def max_def)

lemma nodePre_include:
  assumes "nodePre items allowedWeight nextIndex currentValue currentWeight remainingValue"
    and "nextIndex < length items"
    and "currentWeight + weight (items ! nextIndex) \<le> allowedWeight"
  shows "nodePre (setSelected items nextIndex True) allowedWeight (Suc nextIndex)
     (currentValue + item_value (items ! nextIndex))
     (currentWeight + weight (items ! nextIndex))
     (remainingValue - item_value (items ! nextIndex))"
  using assms
  by (simp add: nodePre_def take_Suc_setSelected drop_pairs_Cons totalValue_def)

lemma nodePre_exclude:
  assumes "nodePre items allowedWeight nextIndex currentValue currentWeight remainingValue"
    and "nextIndex < length items"
    and "length items1 = length items" "clearSel items1 = clearSel items"
    and "take nextIndex items1 = take nextIndex items"
  shows "nodePre (setSelected items1 nextIndex False) allowedWeight (Suc nextIndex)
     currentValue currentWeight
     (remainingValue - item_value (setSelected items1 nextIndex False ! nextIndex))"
proof -
  have p: "pairs items1 = pairs items" using assms(4) by (rule clearSel_pairs)
  have v: "item_value (items1 ! nextIndex) = item_value (items ! nextIndex)"
    using pairs_nth[OF p] assms(2,3) by simp
  show ?thesis
    using assms(1,2,3,5) p v
    by (simp add: nodePre_def take_Suc_setSelected drop_pairs_Cons totalValue_def
        nth_setSelected_fields)
qed

lemma nodeOpt_include:
  "nextIndex < length items \<Longrightarrow>
   nodeOpt (setSelected items nextIndex True) allowedWeight (Suc nextIndex) =
     sumValues (take nextIndex items) False + item_value (items ! nextIndex) +
     knap (drop (Suc nextIndex) (pairs items))
       (allowedWeight - sumWeights (take nextIndex items) False - weight (items ! nextIndex))"
  by (simp add: nodeOpt_def take_Suc_setSelected algebra_simps)

lemma nodeOpt_exclude:
  "nextIndex < length items \<Longrightarrow> length items1 = length items \<Longrightarrow>
   clearSel items1 = clearSel items \<Longrightarrow> take nextIndex items1 = take nextIndex items \<Longrightarrow>
   nodeOpt (setSelected items1 nextIndex False) allowedWeight (Suc nextIndex) =
     sumValues (take nextIndex items) False +
     knap (drop (Suc nextIndex) (pairs items))
       (allowedWeight - sumWeights (take nextIndex items) False)"
  using clearSel_pairs[of items1 items]
  by (simp add: nodeOpt_def take_Suc_setSelected)

lemma nodeOpt_node:
  "nextIndex < length items \<Longrightarrow>
   nodeOpt items allowedWeight nextIndex =
     (if weight (items ! nextIndex) \<le> allowedWeight - sumWeights (take nextIndex items) False
      then max (sumValues (take nextIndex items) False +
                knap (drop (Suc nextIndex) (pairs items))
                  (allowedWeight - sumWeights (take nextIndex items) False))
               (sumValues (take nextIndex items) False + item_value (items ! nextIndex) +
                knap (drop (Suc nextIndex) (pairs items))
                  (allowedWeight - sumWeights (take nextIndex items) False
                     - weight (items ! nextIndex)))
      else sumValues (take nextIndex items) False +
           knap (drop (Suc nextIndex) (pairs items))
             (allowedWeight - sumWeights (take nextIndex items) False))"
  by (simp add: nodeOpt_def drop_pairs_Cons max_def)

lemma nodeOpt_leaf:
  "length items \<le> nextIndex \<Longrightarrow> nodeOpt items allowedWeight nextIndex = sumValues items False"
  by (simp add: nodeOpt_def)

lemma nodeOpt_bounds:
  assumes "nodePre items allowedWeight nextIndex currentValue currentWeight remainingValue"
  shows "0 \<le> nodeOpt items allowedWeight nextIndex"
    and "nodeOpt items allowedWeight nextIndex \<le> currentValue + remainingValue"
proof -
  have n: "nonneg (pairs items)" using assms by (simp add: nodePre_def)
  have "0 \<le> sumValues (take nextIndex items) False"
    using sumValues_nonneg[OF nonneg_take[OF n]] .
  moreover have "0 \<le> knap (drop nextIndex (pairs items)) c" for c
    using knap_nonneg[OF nonneg_drop[OF n]] .
  ultimately show "0 \<le> nodeOpt items allowedWeight nextIndex"
    by (simp add: nodeOpt_def)
  show "nodeOpt items allowedWeight nextIndex \<le> currentValue + remainingValue"
    using knap_le_total[OF nonneg_drop[OF n], of nextIndex] assms
    by (simp add: nodeOpt_def nodePre_def)
qed

lemma doBranchAndBound_post:
  "nodePre items allowedWeight nextIndex currentValue currentWeight remainingValue \<Longrightarrow>
   bbPost items allowedWeight nextIndex bestValue
     (fst (doBranchAndBound items allowedWeight nextIndex bestValue currentValue
        currentWeight remainingValue))"
proof (induction items allowedWeight nextIndex bestValue currentValue currentWeight
    remainingValue rule: doBranchAndBound_cases)
  case (leaf items allowedWeight nextIndex bestValue currentValue currentWeight remainingValue)
  then have "nextIndex = length items" "sumWeights items False \<le> allowedWeight"
    "0 \<le> sumValues items False"
    using sumValues_nonneg[of items False] by (auto simp: nodePre_def)
  with leaf show ?case
    by (simp add: doBranchAndBound_leaf bbPost_def nodeOpt_leaf goodResult_def
        solutionOf_def valueOf_def solutionValue_def)
next
  case (pruned items allowedWeight nextIndex bestValue currentValue currentWeight
      remainingValue)
  with nodeOpt_bounds[OF pruned.prems] show ?case
    by (simp add: doBranchAndBound_pruned bbPost_def valueOf_def)
next
  case (node items allowedWeight nextIndex bestValue currentValue currentWeight remainingValue
      test1 items1 test2 items2)
  let ?v = "item_value (items ! nextIndex)"
  let ?w = "weight (items ! nextIndex)"
  let ?rest = "drop (Suc nextIndex) (pairs items)"
  define Oex where "Oex = currentValue + knap ?rest (allowedWeight - currentWeight)"
  define Oin where "Oin = currentValue + ?v + knap ?rest (allowedWeight - currentWeight - ?w)"
  define fits where "fits \<longleftrightarrow> currentWeight + ?w \<le> allowedWeight"
  define best1 where "best1 = max bestValue (valueOf test1)"
  define explore where "explore \<longleftrightarrow> currentValue + remainingValue - ?v > best1"
  note pre = node.prems
  have cv: "currentValue = sumValues (take nextIndex items) False"
    and cw: "currentWeight = sumWeights (take nextIndex items) False"
    and nn: "nonneg (pairs items)"
    and rv: "remainingValue = totalValue (drop nextIndex (pairs items))"
    using pre by (simp_all add: nodePre_def)
  have fr1: "length items1 = length items" "clearSel items1 = clearSel items"
    "take nextIndex items1 = take nextIndex items"
    using bbInclude_frame[OF node(1,3)] by simp_all
  have v1: "item_value (items1 ! nextIndex) = ?v"
    using pairs_nth[OF clearSel_pairs[OF fr1(2)]] node(1) fr1(1) by simp
  have O: "nodeOpt items allowedWeight nextIndex = (if fits then max Oex Oin else Oex)"
    using nodeOpt_node[OF node(1), of allowedWeight]
    by (auto simp: Oex_def Oin_def fits_def cv cw)
  have pos: "0 \<le> ?v" "0 \<le> ?w" using nonneg_nth[OF nn node(1)] by simp_all
  have cvpos: "0 \<le> currentValue"
    unfolding cv using sumValues_nonneg[OF nonneg_take[OF nn]] .
  have kpos: "0 \<le> knap ?rest c" for c using knap_nonneg[OF nonneg_drop[OF nn]] .
  have Oex0: "0 \<le> Oex" using cvpos kpos by (simp add: Oex_def)
  have Oin0: "0 \<le> Oin" using cvpos kpos pos by (simp add: Oin_def)
  have "knap ?rest (allowedWeight - currentWeight) \<le> totalValue ?rest"
    using knap_le_total[OF nonneg_drop[OF nn]] .
  then have OexB: "Oex \<le> currentValue + remainingValue - ?v"
    using node(1) by (simp add: Oex_def rv drop_pairs_Cons totalValue_def)
  have A1: "0 \<le> valueOf test1 \<and> valueOf test1 \<le> Oin \<and>
      (bestValue < Oin \<longrightarrow> valueOf test1 = Oin) \<and> goodResult items allowedWeight test1"
    if fits
  proof -
    from that have f: "currentWeight + ?w \<le> allowedWeight" by (simp add: fits_def)
    have "bbPost (setSelected items nextIndex True) allowedWeight (Suc nextIndex) bestValue
        test1"
      using node(5)[OF f nodePre_include[OF pre node(1) f]] node(3) node(1) f
      by (simp add: bbInclude_fits)
    then show ?thesis
      using goodResult_cong[of "setSelected items nextIndex True" items allowedWeight test1]
      by (simp add: bbPost_def nodeOpt_include[OF node(1)] Oin_def cv cw)
  qed
  have A1': "valueOf test1 = 0 \<and> goodResult items allowedWeight test1" if "\<not> fits"
    using that node(3) by (auto simp: fits_def bbInclude_skip valueOf_def)
  have A2: "0 \<le> valueOf test2 \<and> valueOf test2 \<le> Oex \<and>
      (best1 < Oex \<longrightarrow> valueOf test2 = Oex) \<and> goodResult items allowedWeight test2"
    if explore
  proof -
    from that have e: "currentValue + remainingValue - item_value (items1 ! nextIndex)
        > max bestValue (valueOf test1)" by (simp add: explore_def best1_def v1)
    have "bbPost (setSelected items1 nextIndex False) allowedWeight (Suc nextIndex) best1
        test2"
      using node(6)[OF e nodePre_exclude[OF pre node(1) fr1]] node(4) e
      by (simp add: bbExclude_go best1_def)
    then show ?thesis
      using goodResult_cong[of "setSelected items1 nextIndex False" items allowedWeight test2]
        clearSel_pairs[OF fr1(2)]
      by (simp add: bbPost_def nodeOpt_exclude[OF node(1) fr1] Oex_def cv cw)
  qed
  have A2': "valueOf test2 = 0 \<and> goodResult items allowedWeight test2" if "\<not> explore"
    using that node(4) by (auto simp: explore_def best1_def v1 bbExclude_skip valueOf_def)
  have g: "goodResult items allowedWeight (pick test1 test2)"
    using A1 A1' A2 A2' by (intro goodResult_pick) blast+
  have arith: "0 \<le> max (valueOf test1) (valueOf test2) \<and>
      max (valueOf test1) (valueOf test2) \<le> (if fits then max Oex Oin else Oex) \<and>
      (bestValue < (if fits then max Oex Oin else Oex) \<longrightarrow>
         max (valueOf test1) (valueOf test2) = (if fits then max Oex Oin else Oex))"
  proof (cases fits; cases explore)
    assume a: fits explore
    show ?thesis using A1[OF a(1)] A2[OF a(2)] a Oex0 Oin0 OexB
      by (auto simp: best1_def explore_def max_def split: if_splits)
  next
    assume a: fits "\<not> explore"
    show ?thesis using A1[OF a(1)] A2'[OF a(2)] a Oex0 Oin0 OexB
      by (auto simp: best1_def explore_def max_def split: if_splits)
  next
    assume a: "\<not> fits" explore
    show ?thesis using A1'[OF a(1)] A2[OF a(2)] a Oex0 Oin0 OexB
      by (auto simp: best1_def explore_def max_def split: if_splits)
  next
    assume a: "\<not> fits" "\<not> explore"
    show ?thesis using A1'[OF a(1)] A2'[OF a(2)] a Oex0 Oin0 OexB
      by (auto simp: best1_def explore_def max_def split: if_splits)
  qed
  show ?case
    unfolding doBranchAndBound_node[OF node(1,2,3,4)] bbPost_def fst_conv valueOf_pick O
    using arith g by simp
qed

lemma branchAndBound_value:
  assumes "nonneg (pairs items)" "0 \<le> allowedWeight"
  shows "valueOf (fst (branchAndBound items allowedWeight)) = knap (pairs items) allowedWeight"
    and "goodResult items allowedWeight (fst (branchAndBound items allowedWeight))"
proof -
  have pre: "nodePre items allowedWeight 0 0 0 (sumValues items True)"
    using assms by (simp add: nodePre_def sumValues_True)
  have o: "nodeOpt items allowedWeight 0 = knap (pairs items) allowedWeight"
    by (simp add: nodeOpt_def)
  from doBranchAndBound_post[OF pre, of 0]
  show "valueOf (fst (branchAndBound items allowedWeight)) = knap (pairs items) allowedWeight"
    and "goodResult items allowedWeight (fst (branchAndBound items allowedWeight))"
    by (auto simp: bbPost_def o branchAndBound_def Let_def)
qed

subsection \<open>Dynamic programming: the table\<close>

lemma positive_nonneg: "positive items \<Longrightarrow> nonneg (pairs items)"
  by (auto simp: positive_def nonneg_def pairs_def)

lemma positive_nth:
  "positive items \<Longrightarrow> i < length items \<Longrightarrow> 0 < item_value (items ! i) \<and> 0 < weight (items ! i)"
  by (simp add: positive_def)

lemma dpCell_ok:
  "w < length prevRow \<Longrightarrow> 0 \<le> weight item \<Longrightarrow>
   dpCell item prevRow w = Inr (cellSpec item prevRow w)"
  by (auto simp: dpCell_def cellSpec_def getIdx_def Let_def)

lemma fillRow_ok:
  "\<forall>w \<in> set ws. w < length prevRow \<Longrightarrow> 0 \<le> weight item \<Longrightarrow>
   fillRow item prevRow ws = Inr (map (cellSpec item prevRow) ws)"
  by (induction ws) (simp_all add: dpCell_ok)

lemma fillRows_ok:
  "length prevRow = nat (allowedWeight + 1) \<Longrightarrow> \<forall>it \<in> set rest. 0 \<le> weight it \<Longrightarrow>
   fillRows rest allowedWeight prevRow = Inr (rowsSpec rest allowedWeight prevRow)"
proof (induction rest arbitrary: prevRow)
  case Nil
  show ?case by simp
next
  case (Cons item rest)
  have "fillRow item (map fst prevRow) [0..<nat (allowedWeight + 1)] =
      Inr (map (cellSpec item (map fst prevRow)) [0..<nat (allowedWeight + 1)])"
    by (rule fillRow_ok) (use Cons.prems in auto)
  moreover have "fillRows rest allowedWeight
      (map (cellSpec item (map fst prevRow)) [0..<nat (allowedWeight + 1)]) =
      Inr (rowsSpec rest allowedWeight
        (map (cellSpec item (map fst prevRow)) [0..<nat (allowedWeight + 1)]))"
    by (rule Cons.IH) (use Cons.prems in auto)
  ultimately show ?case by simp
qed

lemma length_rowsSpec [simp]: "length (rowsSpec rest allowedWeight prevRow) = length rest"
  by (induction rest arbitrary: prevRow) simp_all

lemma rowsSpec_nth:
  "k < length rest \<Longrightarrow>
   rowsSpec rest allowedWeight prevRow ! k =
     map (cellSpec (rest ! k)
            (map fst (if k = 0 then prevRow else rowsSpec rest allowedWeight prevRow ! (k - 1))))
       [0..<nat (allowedWeight + 1)]"
proof (induction rest arbitrary: k prevRow)
  case Nil
  then show ?case by simp
next
  case (Cons item rest)
  show ?case
  proof (cases k)
    case 0
    then show ?thesis by simp
  next
    case (Suc j)
    with Cons.prems have "j < length rest" by simp
    from Cons.IH[OF this] Suc show ?thesis by (cases j) simp_all
  qed
qed

lemma length_dpTable [simp]: "items \<noteq> [] \<Longrightarrow> length (dpTable items allowedWeight) = length items"
  by (cases items) (simp_all add: dpTable_def)

lemma dpTable_0:
  "items \<noteq> [] \<Longrightarrow> dpTable items allowedWeight ! 0 = initRow (items ! 0) allowedWeight"
  by (cases items) (simp_all add: dpTable_def)

lemma dpTable_Suc:
  "Suc k < length items \<Longrightarrow>
   dpTable items allowedWeight ! Suc k =
     map (cellSpec (items ! Suc k) (map fst (dpTable items allowedWeight ! k)))
       [0..<nat (allowedWeight + 1)]"
proof (cases items)
  case Nil
  then show "Suc k < length items \<Longrightarrow> ?thesis" by simp
next
  case (Cons item0 rest)
  assume "Suc k < length items"
  with Cons have k: "k < length rest" by simp
  show ?thesis
    using rowsSpec_nth[OF k, of allowedWeight "initRow item0 allowedWeight"] Cons
    by (cases k) (simp_all add: dpTable_def)
qed

lemma length_dpTable_row:
  "k < length items \<Longrightarrow> length (dpTable items allowedWeight ! k) = nat (allowedWeight + 1)"
proof (cases k)
  case 0
  assume "k < length items"
  with 0 show ?thesis by (simp add: dpTable_0 initRow_def)
next
  case (Suc j)
  assume "k < length items"
  with Suc show ?thesis by (simp add: dpTable_Suc)
qed

lemma dpTable_value:
  "nonneg (pairs items) \<Longrightarrow> k < length items \<Longrightarrow> w < nat (allowedWeight + 1) \<Longrightarrow>
   fst (dpTable items allowedWeight ! k ! w) = knap (rev (take (Suc k) (pairs items))) (int w)"
proof (induction k arbitrary: w)
  case 0
  then obtain item0 rest where i: "items = item0 # rest" by (cases items) auto
  with 0 show ?case by (simp add: dpTable_0 initRow_def max_def)
next
  case (Suc k)
  let ?T = "dpTable items allowedWeight"
  let ?it = "items ! Suc k"
  have pos: "0 \<le> item_value ?it" "0 \<le> weight ?it"
    using nonneg_nth[OF Suc.prems(1,2)] by simp_all
  have r: "rev (take (Suc (Suc k)) (pairs items)) =
      (item_value ?it, weight ?it) # rev (take (Suc k) (pairs items))"
    using Suc.prems(2) by (simp add: take_Suc_conv_app_nth[of "Suc k"] pairs_def)
  have lk: "length (?T ! k) = nat (allowedWeight + 1)"
    using length_dpTable_row[of k items] Suc.prems(2) by simp
  have prev: "map fst (?T ! k) ! c = knap (rev (take (Suc k) (pairs items))) (int c)"
    if "c < nat (allowedWeight + 1)" for c
    using Suc.IH[OF Suc.prems(1) _ that] Suc.prems(2) lk that by simp
  have k0: "0 \<le> knap (rev (take (Suc k) (pairs items))) c" for c
    by (rule knap_nonneg) (use Suc.prems(1) in \<open>auto simp: nonneg_def dest: in_set_takeD\<close>)
  have c2: "nat (int w - weight ?it) < nat (allowedWeight + 1)"
    using Suc.prems(3) pos by linarith
  show ?case
    using Suc.prems(2,3) pos prev[OF Suc.prems(3)] prev[OF c2] k0[of "int w"]
    by (simp add: dpTable_Suc r cellSpec_def Let_def max_def)
qed

subsection \<open>Dynamic programming: reconstruction\<close>

lemma clearSel_nth_fields:
  "clearSel a = clearSel b \<Longrightarrow> i < length a \<Longrightarrow>
   item_value (a ! i) = item_value (b ! i) \<and> weight (a ! i) = weight (b ! i)"
  by (rule pairs_nth[OF clearSel_pairs])

lemma dpTable_prev_0:
  "items \<noteq> [] \<Longrightarrow> w < nat (allowedWeight + 1) \<Longrightarrow>
   dpTable items allowedWeight ! 0 ! w =
     (if weight (items ! 0) \<le> int w then (item_value (items ! 0), - 1) else (0, int w))"
  by (simp add: dpTable_0 initRow_def)

lemma dpTable_prev_Suc:
  assumes "nonneg (pairs items)" "Suc k < length items" "w < nat (allowedWeight + 1)"
  shows "dpTable items allowedWeight ! Suc k ! w =
       (fst (dpTable items allowedWeight ! k ! w), int w) \<or>
     (weight (items ! Suc k) \<le> int w \<and>
      dpTable items allowedWeight ! Suc k ! w =
       (fst (dpTable items allowedWeight ! k ! nat (int w - weight (items ! Suc k)))
          + item_value (items ! Suc k), int w - weight (items ! Suc k)))"
proof -
  let ?T = "dpTable items allowedWeight"
  let ?it = "items ! Suc k"
  have lk: "length (?T ! k) = nat (allowedWeight + 1)"
    using length_dpTable_row[of k items] assms(2) by simp
  have pos: "0 \<le> item_value ?it" "0 \<le> weight ?it"
    using nonneg_nth[OF assms(1,2)] by simp_all
  have "0 \<le> fst (?T ! k ! w)"
    using dpTable_value[OF assms(1) _ assms(3), of k] assms(2)
      knap_nonneg[of "rev (take (Suc k) (pairs items))" "int w"] assms(1)
    by (auto simp: nonneg_def dest: in_set_takeD)
  moreover have "nat (int w - weight ?it) < nat (allowedWeight + 1)"
    using assms(3) pos by linarith
  ultimately show ?thesis
    using assms(2,3) lk by (auto simp: dpTable_Suc cellSpec_def Let_def)
qed

lemma getIdx_ok: "0 \<le> i \<Longrightarrow> i < int (length xs) \<Longrightarrow> getIdx xs i = Inr (xs ! nat i)"
  by (simp add: getIdx_def)

lemma reconstruct_step:
  assumes "items \<noteq> []" "i < length items" "0 \<le> w" "w \<le> allowedWeight"
  shows "reconstruct (map (map snd) (dpTable items allowedWeight)) its (Suc i) w =
     (let prevW = snd (dpTable items allowedWeight ! i ! nat w)
      in if w = prevW
         then reconstruct (map (map snd) (dpTable items allowedWeight)) its i w
         else reconstruct (map (map snd) (dpTable items allowedWeight))
                (setSelected its i True) i prevW)"
proof -
  have "getIdx (map (map snd) (dpTable items allowedWeight)) (int i) =
      Inr (map snd (dpTable items allowedWeight ! i))"
    using assms(1,2) by (simp add: getIdx_ok)
  moreover have "getIdx (map snd (dpTable items allowedWeight ! i)) w =
      Inr (snd (dpTable items allowedWeight ! i ! nat w))"
    using assms length_dpTable_row[OF assms(2), of allowedWeight] by (simp add: getIdx_ok)
  ultimately show ?thesis by (simp add: Let_def)
qed

lemma reconPost_refl: "reconPost its k its"
  by (simp add: reconPost_def)

lemma drop_Suc_cong: "drop k a = drop k b \<Longrightarrow> drop (Suc k) a = drop (Suc k) b"
proof -
  assume "drop k a = drop k b"
  then have "tl (drop k a) = tl (drop k b)" by simp
  then show ?thesis by (simp only: drop_Suc drop_tl)
qed

lemma reconPost_Suc: "reconPost its k its' \<Longrightarrow> reconPost its (Suc k) its'"
  by (auto simp: reconPost_def intro: drop_Suc_cong)

lemma reconPost_setSelected:
  assumes "reconPost (setSelected its k True) k its'" "k < length its"
  shows "reconPost its (Suc k) its'"
proof -
  have "drop k its' = drop k (setSelected its k True)"
    using assms(1) by (simp add: reconPost_def)
  then have "drop (Suc k) its' = drop (Suc k) (setSelected its k True)"
    by (rule drop_Suc_cong)
  moreover have "isSelected (its' ! i)" if "i < length its" "isSelected (its ! i)" for i
  proof -
    have "isSelected (setSelected its k True ! i)"
      using that assms(2) by (cases "i = k") (simp_all add: setSelected_def)
    with assms(1) that show ?thesis by (simp add: reconPost_def)
  qed
  moreover have "drop (Suc k) (setSelected its k True) = drop (Suc k) its"
    by (simp add: setSelected_def)
  ultimately show ?thesis
    using assms by (simp add: reconPost_def)
qed

lemma reconPost_nth:
  assumes "reconPost its k its'" "k < length its"
  shows "its' ! k = its ! k"
proof -
  have "length its' = length its" "drop k its' = drop k its"
    using assms(1) by (simp_all add: reconPost_def)
  then show ?thesis
    using hd_drop_conv_nth[of k its] hd_drop_conv_nth[of k its'] assms(2) by simp
qed

lemma reconstruct_ok:
  assumes "positive items" "items \<noteq> []"
  shows "k \<le> length items \<Longrightarrow> length its = length items \<Longrightarrow>
   clearSel its = clearSel items \<Longrightarrow> (0 < k \<longrightarrow> 0 \<le> w \<and> w \<le> allowedWeight) \<Longrightarrow>
   \<exists>its'. reconstruct (map (map snd) (dpTable items allowedWeight)) its k w = Inr its' \<and>
          reconPost its k its' \<and>
          (if k = 0 then 0 else fst (dpTable items allowedWeight ! (k - 1) ! nat w))
             \<le> sumValues (take k its') False \<and>
          ((\<forall>i < k. \<not> isSelected (its ! i)) \<longrightarrow>
             sumValues (take k its') False =
               (if k = 0 then 0 else fst (dpTable items allowedWeight ! (k - 1) ! nat w)) \<and>
             sumWeights (take k its') False \<le> (if k = 0 then 0 else w))"
proof (induction k arbitrary: its w)
  case 0
  show ?case by (simp add: reconPost_refl)
next
  case (Suc i)
  let ?T = "dpTable items allowedWeight"
  let ?pw = "map (map snd) ?T"
  have il: "i < length items" and w: "0 \<le> w" "w \<le> allowedWeight"
    using Suc.prems by simp_all
  have wn: "nat w < nat (allowedWeight + 1)" using w by simp
  have ile: "i \<le> length items" using il by simp
  have nn: "nonneg (pairs items)" using assms(1) by (rule positive_nonneg)
  have f: "item_value (its ! i) = item_value (items ! i)" "weight (its ! i) = weight (items ! i)"
    using clearSel_nth_fields[OF Suc.prems(3)] il Suc.prems(2) by simp_all
  have p: "0 < item_value (items ! i)" "0 < weight (items ! i)"
    using positive_nth[OF assms(1) il] by simp_all
  note step = reconstruct_step[OF assms(2) il w, of its]
  let ?c = "?T ! i ! nat w"
  have D: "(snd ?c = w \<and> fst ?c = (if i = 0 then 0 else fst (?T ! (i - 1) ! nat w))) \<or>
      (i = 0 \<and> snd ?c = - 1 \<and> weight (items ! i) \<le> w \<and> fst ?c = item_value (items ! i)) \<or>
      (0 < i \<and> snd ?c = w - weight (items ! i) \<and> weight (items ! i) \<le> w \<and>
       fst ?c = fst (?T ! (i - 1) ! nat (w - weight (items ! i))) + item_value (items ! i))"
  proof (cases i)
    case 0
    have "?T ! 0 ! nat w =
        (if weight (items ! 0) \<le> int (nat w) then (item_value (items ! 0), - 1)
         else (0, int (nat w)))"
      by (rule dpTable_prev_0[OF assms(2) wn])
    with 0 w show ?thesis by (cases "weight (items ! 0) \<le> w") simp_all
  next
    case (Suc j)
    have "?T ! Suc j ! nat w = (fst (?T ! j ! nat w), int (nat w)) \<or>
      (weight (items ! Suc j) \<le> int (nat w) \<and>
       ?T ! Suc j ! nat w =
         (fst (?T ! j ! nat (int (nat w) - weight (items ! Suc j)))
            + item_value (items ! Suc j), int (nat w) - weight (items ! Suc j)))"
      by (rule dpTable_prev_Suc[OF nn _ wn]) (use il Suc in simp)
    with Suc w show ?thesis by (elim disjE) simp_all
  qed
  consider (skip) "snd ?c = w"
      "fst ?c = (if i = 0 then 0 else fst (?T ! (i - 1) ! nat w))"
    | (take0) "i = 0" "snd ?c = - 1" "weight (items ! i) \<le> w"
      "fst ?c = item_value (items ! i)"
    | (takeS) "0 < i" "snd ?c = w - weight (items ! i)"
      "weight (items ! i) \<le> w"
      "fst ?c = fst (?T ! (i - 1) ! nat (w - weight (items ! i))) + item_value (items ! i)"
    using D by blast
  then show ?case
  proof cases
    case skip
    have pre: "0 < i \<longrightarrow> 0 \<le> w \<and> w \<le> allowedWeight" using w by simp
    from Suc.IH[OF ile Suc.prems(2,3) pre] obtain its' where
      r: "reconstruct ?pw its i w = Inr its'" and po: "reconPost its i its'"
      and g: "(if i = 0 then 0 else fst (?T ! (i - 1) ! nat w)) \<le> sumValues (take i its') False"
      and s: "(\<forall>j < i. \<not> isSelected (its ! j)) \<longrightarrow>
             sumValues (take i its') False =
               (if i = 0 then 0 else fst (?T ! (i - 1) ! nat w)) \<and>
             sumWeights (take i its') False \<le> (if i = 0 then 0 else w)"
      by blast
    have n: "its' ! i = its ! i" using reconPost_nth[OF po] il Suc.prems(2) by simp
    have l': "i < length its'" using po il Suc.prems(2) by (simp add: reconPost_def)
    have R: "reconstruct ?pw its (Suc i) w = Inr its'" using step skip(1) r by simp
    have P: "reconPost its (Suc i) its'" using po by (rule reconPost_Suc)
    have S: "(\<forall>j < Suc i. \<not> isSelected (its ! j)) \<longrightarrow>
        sumValues (take (Suc i) its') False = fst (?T ! i ! nat w) \<and>
        sumWeights (take (Suc i) its') False \<le> w"
      using s skip(2) n l' w by (auto simp: take_Suc_conv_app_nth split: if_splits)
    have f': "0 \<le> item_value (its' ! i)" using n f p by simp
    have G: "fst (?T ! i ! nat w) \<le> sumValues (take (Suc i) its') False"
      using g skip(2) l' f' by (auto simp: take_Suc_conv_app_nth split: if_splits)
    show ?thesis using R P S G by (intro exI[of _ its']) simp
  next
    case take0
    have R: "reconstruct ?pw its (Suc i) w = Inr (setSelected its i True)"
      using step take0 w by simp
    have P: "reconPost its (Suc i) (setSelected its i True)"
      by (rule reconPost_setSelected[OF reconPost_refl]) (use il Suc.prems(2) in simp)
    have S: "sumValues (take (Suc i) (setSelected its i True)) False
          = fst (?T ! i ! nat w) \<and>
        sumWeights (take (Suc i) (setSelected its i True)) False \<le> w"
      using take0 f il Suc.prems(2) by (simp add: take_Suc_setSelected)
    show ?thesis using R P S by (intro exI[of _ "setSelected its i True"]) simp
  next
    case takeS
    let ?w' = "w - weight (items ! i)"
    have pre: "0 < i \<longrightarrow> 0 \<le> ?w' \<and> ?w' \<le> allowedWeight" using w takeS(3) p by simp
    have l1: "length (setSelected its i True) = length items" using Suc.prems(2) by simp
    have c1: "clearSel (setSelected its i True) = clearSel items" using Suc.prems(3) by simp
    from Suc.IH[OF ile l1 c1 pre] obtain its' where
      r: "reconstruct ?pw (setSelected its i True) i ?w' = Inr its'"
      and po: "reconPost (setSelected its i True) i its'"
      and g: "(if i = 0 then 0 else fst (?T ! (i - 1) ! nat ?w')) \<le> sumValues (take i its') False"
      and s: "(\<forall>j < i. \<not> isSelected (setSelected its i True ! j)) \<longrightarrow>
             sumValues (take i its') False =
               (if i = 0 then 0 else fst (?T ! (i - 1) ! nat ?w')) \<and>
             sumWeights (take i its') False \<le> (if i = 0 then 0 else ?w')"
      by blast
    have n: "its' ! i = (its ! i)\<lparr>isSelected := True\<rparr>"
      using reconPost_nth[OF po] il Suc.prems(2) by (simp add: setSelected_def)
    have l': "i < length its'" using po il Suc.prems(2) by (simp add: reconPost_def)
    have ne: "w \<noteq> ?w'" using p by simp
    have R: "reconstruct ?pw its (Suc i) w = Inr its'" using step takeS(2) ne r by simp
    have P: "reconPost its (Suc i) its'"
      by (rule reconPost_setSelected[OF po]) (use il Suc.prems(2) in simp)
    have S: "sumValues (take (Suc i) its') False = fst (?T ! i ! nat w) \<and>
        sumWeights (take (Suc i) its') False \<le> w"
      if a: "\<forall>j < Suc i. \<not> isSelected (its ! j)"
    proof -
      have "\<forall>j < i. \<not> isSelected (setSelected its i True ! j)"
        using a by (simp add: setSelected_def nth_list_update)
      with s takeS n l' f show ?thesis by (simp add: take_Suc_conv_app_nth)
    qed
    have G: "fst (?T ! i ! nat w) \<le> sumValues (take (Suc i) its') False"
      using g takeS n l' f by (simp add: take_Suc_conv_app_nth)
    show ?thesis using R P S G by (intro exI[of _ its']) simp
  qed
qed

subsection \<open>Dynamic programming: the result\<close>

lemma dpTable_last:
  assumes "items \<noteq> []" "positive items" "0 \<le> allowedWeight"
  shows "fst (dpTable items allowedWeight ! (length items - 1) ! nat allowedWeight) =
     knap (pairs items) allowedWeight"
proof -
  have nn: "nonneg (pairs items)" using assms(2) by (rule positive_nonneg)
  have "fst (dpTable items allowedWeight ! (length items - 1) ! nat allowedWeight) =
      knap (rev (take (Suc (length items - 1)) (pairs items))) (int (nat allowedWeight))"
    by (rule dpTable_value[OF nn]) (use assms in auto)
  also have "\<dots> = knap (rev (pairs items)) allowedWeight"
    using assms(1,3) by simp
  also have "\<dots> = knap (pairs items) allowedWeight"
    by (rule knap_mset) (use nn in \<open>auto simp: nonneg_def\<close>)
  finally show ?thesis .
qed

lemma dynamicProgramming_unfold:
  "items \<noteq> [] \<Longrightarrow> 0 \<le> allowedWeight \<Longrightarrow>
   dynamicProgramming items allowedWeight =
     (case fillRows (tl items) allowedWeight (initRow (hd items) allowedWeight) of
        Inl e \<Rightarrow> Inl e
      | Inr rows \<Rightarrow>
          (case reconstruct (map (map snd) (initRow (hd items) allowedWeight # rows)) items
                  (length items) allowedWeight of
             Inl e \<Rightarrow> Inl e
           | Inr items' \<Rightarrow>
               (case getIdx (map (map fst) (initRow (hd items) allowedWeight # rows))
                       (int (length items) - 1) of
                  Inl e \<Rightarrow> Inl e
                | Inr lastRow \<Rightarrow>
                    (case getIdx lastRow allowedWeight of
                       Inl e \<Rightarrow> Inl e
                     | Inr v \<Rightarrow> Inr ((Some items', v, 1), items')))))"
  by (cases items) (simp_all only: dynamicProgramming_def Let_def list.case list.sel
      if_False not_less, simp_all)

lemma dynamicProgramming_ok:
  assumes "items \<noteq> []" "positive items" "0 \<le> allowedWeight"
  shows "\<exists>items'. dynamicProgramming items allowedWeight =
           Inr ((Some items', knap (pairs items) allowedWeight, 1), items') \<and>
         reconPost items (length items) items' \<and>
         knap (pairs items) allowedWeight \<le> sumValues items' False \<and>
         ((\<forall>i < length items. \<not> isSelected (items ! i)) \<longrightarrow>
            sumValues items' False = knap (pairs items) allowedWeight \<and>
            sumWeights items' False \<le> allowedWeight)"
proof -
  let ?T = "dpTable items allowedWeight"
  let ?row0 = "initRow (hd items) allowedWeight"
  have len: "0 < length items" using assms(1) by simp
  have w0: "\<forall>it \<in> set (tl items). 0 \<le> weight it"
    using assms(1,2) by (auto simp: positive_def less_imp_le dest: list.set_sel(2))
  have fr: "fillRows (tl items) allowedWeight ?row0 = Inr (rowsSpec (tl items) allowedWeight ?row0)"
    by (rule fillRows_ok[OF _ w0]) (simp add: initRow_def)
  have T: "?row0 # rowsSpec (tl items) allowedWeight ?row0 = ?T" by (simp add: dpTable_def)
  have pre: "0 < length items \<longrightarrow> 0 \<le> allowedWeight \<and> allowedWeight \<le> allowedWeight"
    using assms(3) by simp
  from reconstruct_ok[OF assms(2,1) le_refl refl refl pre]
  obtain items' where
    r: "reconstruct (map (map snd) ?T) items (length items) allowedWeight = Inr items'"
    and po: "reconPost items (length items) items'"
    and g: "(if length items = 0 then 0
             else fst (?T ! (length items - 1) ! nat allowedWeight))
            \<le> sumValues (take (length items) items') False"
    and s: "(\<forall>i < length items. \<not> isSelected (items ! i)) \<longrightarrow>
        sumValues (take (length items) items') False =
          (if length items = 0 then 0
           else fst (?T ! (length items - 1) ! nat allowedWeight)) \<and>
        sumWeights (take (length items) items') False \<le>
          (if length items = 0 then 0 else allowedWeight)"
    by blast
  have l': "length items' = length items" using po by (simp add: reconPost_def)
  have last: "fst (?T ! (length items - 1) ! nat allowedWeight) =
      knap (pairs items) allowedWeight" by (rule dpTable_last[OF assms])
  have g1: "getIdx (map (map fst) ?T) (int (length items) - 1) =
      Inr (map fst (?T ! (length items - 1)))"
    using len assms(1) by (simp add: getIdx_def nat_diff_distrib')
  have g2: "getIdx (map fst (?T ! (length items - 1))) allowedWeight =
      Inr (fst (?T ! (length items - 1) ! nat allowedWeight))"
    using assms(3) len length_dpTable_row[of "length items - 1" items allowedWeight]
    by (simp add: getIdx_def)
  have D: "dynamicProgramming items allowedWeight =
      Inr ((Some items', knap (pairs items) allowedWeight, 1), items')"
    unfolding dynamicProgramming_unfold[OF assms(1,3)]
    by (simp only: fr sum.case T r g1 g2 last)
  show ?thesis
    using D po g s l' len last by (intro exI[of _ items']) simp
qed

subsection \<open>Rod's technique: node equations\<close>

lemma doRodsTechnique_leaf:
  "length items \<le> nextIndex \<Longrightarrow>
   doRodsTechnique items allowedWeight nextIndex bestValue currentValue currentWeight
     remainingValue = Inr ((Some items, solutionValue items allowedWeight, 1), items)"
  by (simp add: doRodsTechnique.simps[of items] copyItems_def)

lemma doRodsTechnique_pruned:
  "nextIndex < length items \<Longrightarrow> currentValue + remainingValue < bestValue \<Longrightarrow>
   doRodsTechnique items allowedWeight nextIndex bestValue currentValue currentWeight
     remainingValue = Inr ((None, 0, 1), items)"
  by (simp add: doRodsTechnique.simps[of items])

lemma doRodsTechnique_unfold:
  assumes "nextIndex < length items"
    and "\<not> currentValue + remainingValue < bestValue"
  shows "doRodsTechnique items allowedWeight nextIndex bestValue currentValue currentWeight
     remainingValue =
     (case rodsInclude items allowedWeight nextIndex bestValue currentValue currentWeight
             remainingValue of
        Inl e \<Rightarrow> Inl e
      | Inr (test1, items1) \<Rightarrow>
          (case rodsExclude items1 allowedWeight nextIndex (max bestValue (valueOf test1))
                  currentValue currentWeight remainingValue of
             Inl e \<Rightarrow> Inl e
           | Inr (test2, itemsU) \<Rightarrow> Inr (pick test1 test2, itemsU)))"
proof -
  have n: "\<not> length items \<le> nextIndex" using assms(1) by simp
  have m: "\<And>a b :: int. (if a < b then b else a) = max a b" by (simp add: max_def)
  show ?thesis
    apply (subst doRodsTechnique.simps)
    apply (simp only: n assms(2) if_False)
    apply (simp only: rodsInclude_def[symmetric] m)
    apply (simp add: rodsExclude_def Let_def pick_def valueOf_def solutionOf_def callsOf_def
        split: sum.splits prod.splits)
    done
qed

lemma doRodsTechnique_cases [case_names leaf pruned node]:
  assumes "\<And>items allowedWeight nextIndex bestValue currentValue currentWeight remainingValue.
      length items \<le> nextIndex \<Longrightarrow>
      P items allowedWeight nextIndex bestValue currentValue currentWeight remainingValue"
    and "\<And>items allowedWeight nextIndex bestValue currentValue currentWeight remainingValue.
      nextIndex < length items \<Longrightarrow> currentValue + remainingValue < bestValue \<Longrightarrow>
      P items allowedWeight nextIndex bestValue currentValue currentWeight remainingValue"
    and "\<And>items allowedWeight nextIndex bestValue currentValue currentWeight remainingValue.
      nextIndex < length items \<Longrightarrow> \<not> currentValue + remainingValue < bestValue \<Longrightarrow>
      (currentWeight + weight (items ! nextIndex) \<le> allowedWeight \<and>
         blockedBy (items ! nextIndex) < 0 \<Longrightarrow>
       P (setSelected items nextIndex True) allowedWeight (Suc nextIndex) bestValue
         (currentValue + item_value (items ! nextIndex))
         (currentWeight + weight (items ! nextIndex))
         (remainingValue - item_value (items ! nextIndex))) \<Longrightarrow>
      (\<And>test1 items1 itemsB.
         rodsInclude items allowedWeight nextIndex bestValue currentValue currentWeight
           remainingValue = Inr (test1, items1) \<Longrightarrow>
         blockItems (items1 ! nextIndex) items1 = Inr itemsB \<Longrightarrow>
         P (setSelected itemsB nextIndex False) allowedWeight (Suc nextIndex)
           (max bestValue (valueOf test1)) currentValue currentWeight
           (remainingValue - item_value (setSelected itemsB nextIndex False ! nextIndex))) \<Longrightarrow>
      P items allowedWeight nextIndex bestValue currentValue currentWeight remainingValue"
  shows "P items allowedWeight nextIndex bestValue currentValue currentWeight remainingValue"
proof (induction items allowedWeight nextIndex bestValue currentValue currentWeight
    remainingValue rule: doRodsTechnique.induct)
  case (1 items allowedWeight nextIndex bestValue currentValue currentWeight remainingValue)
  show ?case
  proof (cases "length items \<le> nextIndex")
    case True
    then show ?thesis by (rule assms(1))
  next
    case False
    then have lt: "nextIndex < length items" by simp
    show ?thesis
    proof (cases "currentValue + remainingValue < bestValue")
      case True
      with lt show ?thesis by (rule assms(2))
    next
      case np: False
      have ih1: "P (setSelected items nextIndex True) allowedWeight (Suc nextIndex) bestValue
         (currentValue + item_value (items ! nextIndex))
         (currentWeight + weight (items ! nextIndex))
         (remainingValue - item_value (items ! nextIndex))"
        if "currentWeight + weight (items ! nextIndex) \<le> allowedWeight \<and>
            blockedBy (items ! nextIndex) < 0"
        using "1.IH"(1)[OF False np that refl] lt by (simp add: nth_setSelected_fields)
      have ih2: "P (setSelected itemsB nextIndex False) allowedWeight (Suc nextIndex)
           (max bestValue (valueOf test1)) currentValue currentWeight
           (remainingValue - item_value (setSelected itemsB nextIndex False ! nextIndex))"
        if a: "rodsInclude items allowedWeight nextIndex bestValue currentValue currentWeight
           remainingValue = Inr (test1, items1)"
          and b: "blockItems (items1 ! nextIndex) items1 = Inr itemsB"
        for test1 items1 itemsB
      proof -
        have m: "(if bestValue < valueOf test1 then valueOf test1 else bestValue)
            = max bestValue (valueOf test1)" by (simp add: max_def)
        show ?thesis
          using "1.IH"(2)[OF False np a[unfolded rodsInclude_def] refl refl b refl]
          by (simp add: m)
      qed
      show ?thesis by (rule assms(3)[OF lt np ih1 ih2])
    qed
  qed
qed

lemma blockLoop_nth:
  "\<forall>x \<in> set ids. 0 \<le> x \<and> x < int (length items) \<Longrightarrow>
   \<exists>items'. blockLoop sid ids items = Inr items' \<and> length items' = length items \<and>
     (\<forall>j < length items. items' ! j =
        (if int j \<in> set ids \<and> blockedBy (items ! j) < 0
         then (items ! j)\<lparr>blockedBy := sid\<rparr> else items ! j))"
proof (induction ids arbitrary: items)
  case Nil
  show ?case by simp
next
  case (Cons x ids)
  let ?items1 = "if blockedBy (items ! nat x) < 0
           then items[nat x := (items ! nat x)\<lparr>blockedBy := sid\<rparr>] else items"
  have x: "0 \<le> x" "x < int (length items)" using Cons.prems by simp_all
  have l1: "length ?items1 = length items" by simp
  have "\<forall>y \<in> set ids. 0 \<le> y \<and> y < int (length ?items1)" using Cons.prems by simp
  from Cons.IH[OF this] obtain items' where
    r: "blockLoop sid ids ?items1 = Inr items'" and l: "length items' = length ?items1"
    and n: "\<forall>j < length ?items1. items' ! j =
        (if int j \<in> set ids \<and> blockedBy (?items1 ! j) < 0
         then (?items1 ! j)\<lparr>blockedBy := sid\<rparr> else ?items1 ! j)"
    by blast
  have "blockLoop sid (x # ids) items = Inr items'" using x r by simp
  moreover have "items' ! j =
        (if int j \<in> set (x # ids) \<and> blockedBy (items ! j) < 0
         then (items ! j)\<lparr>blockedBy := sid\<rparr> else items ! j)" if "j < length items" for j
  proof (cases "j = nat x")
    case True
    with n that x show ?thesis by (auto simp: nth_list_update)
  next
    case False
    then have "int j \<noteq> x" using x by auto
    with n that False show ?thesis by (auto simp: nth_list_update)
  qed
  ultimately show ?case using l l1 by (intro exI[of _ items']) simp
qed

lemma unblockLoop_nth:
  "\<forall>x \<in> set ids. 0 \<le> x \<and> x < int (length items) \<Longrightarrow>
   \<exists>items'. unblockLoop sid ids items = Inr items' \<and> length items' = length items \<and>
     (\<forall>j < length items. items' ! j =
        (if int j \<in> set ids \<and> blockedBy (items ! j) = sid
         then (items ! j)\<lparr>blockedBy := - 1\<rparr> else items ! j))"
proof (induction ids arbitrary: items)
  case Nil
  show ?case by simp
next
  case (Cons x ids)
  let ?items1 = "if blockedBy (items ! nat x) = sid
           then items[nat x := (items ! nat x)\<lparr>blockedBy := - 1\<rparr>] else items"
  have x: "0 \<le> x" "x < int (length items)" using Cons.prems by simp_all
  have l1: "length ?items1 = length items" by simp
  have "\<forall>y \<in> set ids. 0 \<le> y \<and> y < int (length ?items1)" using Cons.prems by simp
  from Cons.IH[OF this] obtain items' where
    r: "unblockLoop sid ids ?items1 = Inr items'" and l: "length items' = length ?items1"
    and n: "\<forall>j < length ?items1. items' ! j =
        (if int j \<in> set ids \<and> blockedBy (?items1 ! j) = sid
         then (?items1 ! j)\<lparr>blockedBy := - 1\<rparr> else ?items1 ! j)"
    by blast
  have "unblockLoop sid (x # ids) items = Inr items'" using x r by simp
  moreover have "items' ! j =
        (if int j \<in> set (x # ids) \<and> blockedBy (items ! j) = sid
         then (items ! j)\<lparr>blockedBy := - 1\<rparr> else items ! j)" if "j < length items" for j
  proof (cases "j = nat x")
    case True
    with n that x show ?thesis by (auto simp: nth_list_update)
  next
    case False
    then have "int j \<noteq> x" using x by auto
    with n that False show ?thesis by (auto simp: nth_list_update)
  qed
  ultimately show ?case using l l1 by (intro exI[of _ items']) simp
qed

subsection \<open>Rod's technique: blocking and unblocking\<close>

lemma sameBut_iff: "a\<lparr>isSelected := False\<rparr> = b\<lparr>isSelected := False\<rparr> \<longleftrightarrow> sameBut a b"
  by (cases a; cases b) (auto simp: sameBut_def)

lemma item_eqI: "sameBut a b \<Longrightarrow> isSelected a = isSelected b \<Longrightarrow> a = (b::Item)"
  by (cases a; cases b) (auto simp: sameBut_def)

lemma clearSel_iff:
  "clearSel a = clearSel b \<longleftrightarrow>
     length a = length b \<and> (\<forall>j < length a. sameBut (a ! j) (b ! j))"
  by (auto simp: clearSel_def list_eq_iff_nth_eq sameBut_iff)

lemma take_eq_iff:
  "length a = length b \<Longrightarrow> k \<le> length a \<Longrightarrow>
   take k a = take k b \<longleftrightarrow> (\<forall>j < k. a ! j = b ! j)"
  by (auto simp: list_eq_iff_nth_eq)

lemma framed_iff:
  "nextIndex \<le> length items \<Longrightarrow>
   framed items nextIndex items' \<longleftrightarrow>
     length items' = length items \<and>
     (\<forall>j < length items. sameBut (items' ! j) (items ! j)) \<and>
     (\<forall>j < nextIndex. isSelected (items' ! j) = isSelected (items ! j))"
proof -
  assume le: "nextIndex \<le> length items"
  show ?thesis
  proof (cases "length items' = length items")
    case False
    then show ?thesis by (simp add: framed_def)
  next
    case True
    have "(\<forall>j<nextIndex. items' ! j = items ! j) \<longleftrightarrow>
        (\<forall>j<nextIndex. isSelected (items' ! j) = isSelected (items ! j))"
      if "\<forall>j < length items. sameBut (items' ! j) (items ! j)"
      using that le by (auto intro: item_eqI)
    with True le show ?thesis
      by (auto simp: framed_def clearSel_iff take_eq_iff)
  qed
qed

lemma dominatedIds_set:
  assumes "\<forall>j < length items. item_id (items ! j) = int j" "j < length items"
  shows "int j \<in> set (dominatedIds items i) \<longleftrightarrow> dominates items i j"
proof
  assume "int j \<in> set (dominatedIds items i)"
  then obtain k where k: "k < length items" "int j = item_id (items ! k)"
    "dominates items i k"
    by (auto simp: dominatedIds_def dominates_def)
  with assms(1) have "k = j" by simp
  with k show "dominates items i j" by simp
next
  assume "dominates items i j"
  then have "item_id (items ! j) \<in> set (dominatedIds items i)"
    using assms(2) by (auto simp: dominatedIds_def dominates_def intro!: image_eqI[of _ _ j])
  with assms show "int j \<in> set (dominatedIds items i)" by simp
qed

lemma dominatedIds_range:
  assumes "\<forall>j < length items. item_id (items ! j) = int j"
  shows "\<forall>x \<in> set (dominatedIds items i). 0 \<le> x \<and> x < int (length items)"
  using assms by (auto simp: dominatedIds_def)

lemma sameBut_sameStatic: "sameBut a b \<Longrightarrow> sameStatic a b"
  by (simp add: sameBut_def sameStatic_def)

lemma dominates_cong:
  "\<forall>j < length a. sameStatic (a ! j) (b ! j) \<Longrightarrow>
   i < length a \<Longrightarrow> j < length a \<Longrightarrow> dominates a i j = dominates b i j"
  by (simp add: dominates_def sameStatic_def)

lemma dominatedIds_cong_fields:
  assumes "length a = length b"
    and "\<forall>j < length a. item_id (a ! j) = item_id (b ! j) \<and>
           item_value (a ! j) = item_value (b ! j) \<and> weight (a ! j) = weight (b ! j)"
    and "i < length a"
  shows "dominatedIds a i = dominatedIds b i"
proof -
  have "filter (\<lambda>j. i \<noteq> j \<and> item_value (a ! i) \<ge> item_value (a ! j)
                     \<and> weight (a ! i) \<le> weight (a ! j)) [0..<length a] =
        filter (\<lambda>j. i \<noteq> j \<and> item_value (b ! i) \<ge> item_value (b ! j)
                     \<and> weight (b ! i) \<le> weight (b ! j)) [0..<length a]"
    by (rule filter_cong) (use assms in auto)
  moreover have "map (\<lambda>j. item_id (a ! j)) (filter P [0..<length a]) =
      map (\<lambda>j. item_id (b ! j)) (filter P [0..<length a])" for P
    by (rule map_cong) (use assms in auto)
  ultimately show ?thesis
    unfolding dominatedIds_def assms(1)[symmetric] by simp
qed

lemma dominatedIds_cong:
  assumes "length a = length b" "\<forall>j < length a. sameStatic (a ! j) (b ! j)" "i < length a"
  shows "dominatedIds a i = dominatedIds b i"
  by (rule dominatedIds_cong_fields) (use assms in \<open>auto simp: sameStatic_def\<close>)

lemma rodsWf_cong:
  assumes "length a = length b" "\<forall>j < length a. sameStatic (a ! j) (b ! j)" "rodsWf b"
  shows "rodsWf a"
  unfolding rodsWf_def
proof (intro allI impI)
  fix i assume i: "i < length a"
  have "sameStatic (a ! i) (b ! i)" using assms(2) i by simp
  moreover have "dominatedIds a i = dominatedIds b i"
    by (rule dominatedIds_cong[OF assms(1,2) i])
  ultimately show "item_id (a ! i) = int i \<and> blockList (a ! i) = dominatedIds a i"
    using assms(3) i assms(1) by (simp add: rodsWf_def sameStatic_def)
qed

lemma blockList_set:
  "rodsWf items \<Longrightarrow> i < length items \<Longrightarrow> j < length items \<Longrightarrow>
   int j \<in> set (blockList (items ! i)) \<longleftrightarrow> dominates items i j"
  using dominatedIds_set[of items j i] by (simp add: rodsWf_def)

lemma blockList_range:
  "rodsWf items \<Longrightarrow> i < length items \<Longrightarrow>
   \<forall>x \<in> set (blockList (items ! i)). 0 \<le> x \<and> x < int (length items)"
  using dominatedIds_range[of items i] by (simp add: rodsWf_def)

lemma blockItems_ok:
  assumes "rodsWf items" "i < length items"
  shows "\<exists>itemsB. blockItems (items ! i) items = Inr itemsB \<and> length itemsB = length items \<and>
     (\<forall>j < length items. itemsB ! j =
        (if dominates items i j \<and> blockedBy (items ! j) < 0
         then (items ! j)\<lparr>blockedBy := int i\<rparr> else items ! j))"
proof -
  from blockLoop_nth[OF blockList_range[OF assms], of "item_id (items ! i)"]
  obtain itemsB where
    b: "blockLoop (item_id (items ! i)) (blockList (items ! i)) items = Inr itemsB"
    and l: "length itemsB = length items"
    and n: "\<forall>j < length items. itemsB ! j =
        (if int j \<in> set (blockList (items ! i)) \<and> blockedBy (items ! j) < 0
         then (items ! j)\<lparr>blockedBy := item_id (items ! i)\<rparr> else items ! j)"
    by blast
  have "item_id (items ! i) = int i" using assms by (simp add: rodsWf_def)
  with b l n blockList_set[OF assms] show ?thesis
    by (intro exI[of _ itemsB]) (simp add: blockItems_def)
qed

lemma unblockItems_ok:
  assumes "rodsWf items" "i < length items"
  shows "\<exists>itemsU. unblockItems (items ! i) items = Inr itemsU \<and> length itemsU = length items \<and>
     (\<forall>j < length items. itemsU ! j =
        (if dominates items i j \<and> blockedBy (items ! j) = int i
         then (items ! j)\<lparr>blockedBy := - 1\<rparr> else items ! j))"
proof -
  from unblockLoop_nth[OF blockList_range[OF assms], of "item_id (items ! i)"]
  obtain itemsU where
    b: "unblockLoop (item_id (items ! i)) (blockList (items ! i)) items = Inr itemsU"
    and l: "length itemsU = length items"
    and n: "\<forall>j < length items. itemsU ! j =
        (if int j \<in> set (blockList (items ! i)) \<and> blockedBy (items ! j) = item_id (items ! i)
         then (items ! j)\<lparr>blockedBy := - 1\<rparr> else items ! j)"
    by blast
  have "item_id (items ! i) = int i" using assms by (simp add: rodsWf_def)
  with b l n blockList_set[OF assms] show ?thesis
    by (intro exI[of _ itemsU]) (simp add: unblockItems_def)
qed

subsection \<open>Rod's technique: the blocking state is restored\<close>

lemma framed_refl: "framed items nextIndex items"
  by (simp add: framed_def)

lemma rodsInclude_skip:
  "\<not> (currentWeight + weight (items ! nextIndex) \<le> allowedWeight \<and>
      blockedBy (items ! nextIndex) < 0) \<Longrightarrow>
   rodsInclude items allowedWeight nextIndex bestValue currentValue currentWeight
     remainingValue = Inr ((None, 0, 1), items)"
  by (auto simp: rodsInclude_def)

lemma rodsInclude_go:
  "nextIndex < length items \<Longrightarrow>
   currentWeight + weight (items ! nextIndex) \<le> allowedWeight \<and>
      blockedBy (items ! nextIndex) < 0 \<Longrightarrow>
   rodsInclude items allowedWeight nextIndex bestValue currentValue currentWeight
     remainingValue =
   doRodsTechnique (setSelected items nextIndex True) allowedWeight (Suc nextIndex) bestValue
     (currentValue + item_value (items ! nextIndex))
     (currentWeight + weight (items ! nextIndex))
     (remainingValue - item_value (items ! nextIndex))"
  by (simp add: rodsInclude_def Let_def nth_setSelected_fields)

lemma nth_setSelected:
  "j < length items \<Longrightarrow>
   setSelected items i b ! j = (if j = i then (items ! j)\<lparr>isSelected := b\<rparr> else items ! j)"
  by (simp add: setSelected_def nth_list_update)

lemma rodsFI_setSelected:
  assumes "rodsFI items k"
  shows "rodsFI (setSelected items i b) k"
proof -
  have "rodsWf (setSelected items i b)"
    by (rule rodsWf_cong[of _ items])
      (use assms in \<open>auto simp: rodsFI_def nth_setSelected sameStatic_def\<close>)
  with assms show ?thesis
    by (auto simp: rodsFI_def nth_setSelected)
qed

lemma rodsFI_mono: "rodsFI items k \<Longrightarrow> k \<le> k' \<Longrightarrow> rodsFI items k'"
  by (fastforce simp: rodsFI_def)

lemma rodsFI_framed:
  assumes "rodsFI items nextIndex" "framed items k items'" "k \<le> length items"
  shows "rodsFI items' nextIndex"
proof -
  have f: "length items' = length items" "\<forall>j < length items. sameBut (items' ! j) (items ! j)"
    using assms(2) framed_iff[OF assms(3)] by simp_all
  have "rodsWf items'"
    by (rule rodsWf_cong[of _ items]) (use assms(1) f in \<open>auto simp: rodsFI_def sameBut_sameStatic\<close>)
  with assms(1) f show ?thesis
    by (auto simp: rodsFI_def sameBut_def)
qed

lemma framed_trans:
  "framed a k b \<Longrightarrow> framed b k c \<Longrightarrow> framed a k c"
  by (simp add: framed_def)

lemma framed_Suc: "framed a (Suc k) b \<Longrightarrow> framed a k b"
  by (auto simp: framed_def dest: take_Suc_eq_take)

lemma rodsInclude_frame:
  assumes "rodsFI items nextIndex" "nextIndex < length items"
    and "currentWeight + weight (items ! nextIndex) \<le> allowedWeight \<and>
           blockedBy (items ! nextIndex) < 0 \<Longrightarrow>
         \<exists>r items'. doRodsTechnique (setSelected items nextIndex True) allowedWeight
            (Suc nextIndex) bestValue (currentValue + item_value (items ! nextIndex))
            (currentWeight + weight (items ! nextIndex))
            (remainingValue - item_value (items ! nextIndex)) = Inr (r, items') \<and>
          framed (setSelected items nextIndex True) (Suc nextIndex) items'"
  shows "\<exists>test1 items1. rodsInclude items allowedWeight nextIndex bestValue currentValue
      currentWeight remainingValue = Inr (test1, items1) \<and> framed items nextIndex items1"
proof (cases "currentWeight + weight (items ! nextIndex) \<le> allowedWeight \<and>
    blockedBy (items ! nextIndex) < 0")
  case True
  from assms(3)[OF True] obtain r items' where
    r: "doRodsTechnique (setSelected items nextIndex True) allowedWeight (Suc nextIndex)
        bestValue (currentValue + item_value (items ! nextIndex))
        (currentWeight + weight (items ! nextIndex))
        (remainingValue - item_value (items ! nextIndex)) = Inr (r, items')"
    and f: "framed (setSelected items nextIndex True) (Suc nextIndex) items'"
    by blast
  have "framed items nextIndex items'"
    using framed_Suc[OF f] by (simp add: framed_def)
  with r show ?thesis unfolding rodsInclude_go[OF assms(2) True] by blast
next
  case False
  show ?thesis unfolding rodsInclude_skip[OF False] using framed_refl by blast
qed

lemma rodsBlock:
  assumes "rodsFI items nextIndex" "nextIndex < length items"
    and "framed items nextIndex items1"
  shows "\<exists>itemsB. blockItems (items1 ! nextIndex) items1 = Inr itemsB \<and>
     length itemsB = length items \<and>
     (\<forall>j < length items. itemsB ! j =
        (if dominates items nextIndex j \<and> blockedBy (items ! j) < 0
         then (items1 ! j)\<lparr>blockedBy := int nextIndex\<rparr> else items1 ! j)) \<and>
     rodsFI (setSelected itemsB nextIndex False) (Suc nextIndex)"
proof -
  have le: "nextIndex \<le> length items" using assms(2) by simp
  have l1: "length items1 = length items"
    and s1: "\<forall>j < length items. sameBut (items1 ! j) (items ! j)"
    using assms(3) framed_iff[OF le] by simp_all
  have fi1: "rodsFI items1 nextIndex" by (rule rodsFI_framed[OF assms(1,3) le])
  then have wf1: "rodsWf items1" by (simp add: rodsFI_def)
  from blockItems_ok[OF wf1, of nextIndex] assms(2) l1 obtain itemsB where
    b: "blockItems (items1 ! nextIndex) items1 = Inr itemsB"
    and lB: "length itemsB = length items"
    and nB: "\<forall>j < length items. itemsB ! j =
        (if dominates items1 nextIndex j \<and> blockedBy (items1 ! j) < 0
         then (items1 ! j)\<lparr>blockedBy := int nextIndex\<rparr> else items1 ! j)"
    by auto
  have d: "dominates items1 nextIndex j = dominates items nextIndex j"
    if "j < length items" for j
    by (rule dominates_cong) (use that assms(2) l1 s1 in \<open>auto simp: sameBut_sameStatic\<close>)
  have nB': "\<forall>j < length items. itemsB ! j =
        (if dominates items nextIndex j \<and> blockedBy (items ! j) < 0
         then (items1 ! j)\<lparr>blockedBy := int nextIndex\<rparr> else items1 ! j)"
    using nB d s1 by (auto simp: sameBut_def)
  have wfB: "rodsWf itemsB"
    by (rule rodsWf_cong[of _ items1]) (use wf1 lB l1 nB in \<open>auto simp: sameStatic_def\<close>)
  have "rodsFI itemsB (Suc nextIndex)"
    using wfB fi1 lB l1 nB by (auto simp: rodsFI_def)
  then have "rodsFI (setSelected itemsB nextIndex False) (Suc nextIndex)"
    by (rule rodsFI_setSelected)
  with b lB nB' show ?thesis by blast
qed

lemma rodsUnwind:
  assumes fi: "rodsFI items nextIndex" and lt: "nextIndex < length items"
    and f1: "framed items nextIndex items1"
    and lB: "length itemsB = length items"
    and nB: "\<forall>j < length items. itemsB ! j =
        (if dominates items nextIndex j \<and> blockedBy (items ! j) < 0
         then (items1 ! j)\<lparr>blockedBy := int nextIndex\<rparr> else items1 ! j)"
    and fiF: "rodsFI (setSelected itemsB nextIndex False) (Suc nextIndex)"
    and f2: "framed (setSelected itemsB nextIndex False) (Suc nextIndex) items2"
  shows "\<exists>itemsU. unblockItems (items2 ! nextIndex) items2 = Inr itemsU \<and>
     framed items nextIndex itemsU"
proof -
  let ?itemsF = "setSelected itemsB nextIndex False"
  have le: "nextIndex \<le> length items" "Suc nextIndex \<le> length items" using lt by simp_all
  have l1: "length items1 = length items"
    and s1: "\<forall>j < length items. sameBut (items1 ! j) (items ! j)"
    and e1: "\<forall>j < nextIndex. isSelected (items1 ! j) = isSelected (items ! j)"
    using f1 framed_iff[OF le(1)] by simp_all
  have lF: "length ?itemsF = length items" using lB by simp
  have l2: "length items2 = length items"
    and s2: "\<forall>j < length items. sameBut (items2 ! j) (?itemsF ! j)"
    and e2: "\<forall>j < Suc nextIndex. isSelected (items2 ! j) = isSelected (?itemsF ! j)"
    using f2 framed_iff[of "Suc nextIndex" ?itemsF items2] le(2) lF by simp_all
  have fi2: "rodsFI items2 (Suc nextIndex)"
    by (rule rodsFI_framed[OF fiF f2]) (use lF le in simp)
  then have wf2: "rodsWf items2" by (simp add: rodsFI_def)
  from unblockItems_ok[OF wf2, of nextIndex] lt l2 obtain itemsU where
    u: "unblockItems (items2 ! nextIndex) items2 = Inr itemsU"
    and lU: "length itemsU = length items"
    and nU: "\<forall>j < length items. itemsU ! j =
        (if dominates items2 nextIndex j \<and> blockedBy (items2 ! j) = int nextIndex
         then (items2 ! j)\<lparr>blockedBy := - 1\<rparr> else items2 ! j)"
    by auto
  have d2: "dominates items2 nextIndex j = dominates items nextIndex j"
    if "j < length items" for j
  proof (rule dominates_cong)
    show "\<forall>j < length items2. sameStatic (items2 ! j) (items ! j)"
      using s2 s1 nB l2 lB by (auto simp: sameBut_def sameStatic_def nth_setSelected)
  qed (use that lt l2 in simp_all)
  have "sameBut (itemsU ! j) (items ! j) \<and>
      (j < nextIndex \<longrightarrow> isSelected (itemsU ! j) = isSelected (items ! j))"
    if j: "j < length items" for j
  proof -
    have a: "blockedBy (items ! j) = - 1 \<or>
        (0 \<le> blockedBy (items ! j) \<and> blockedBy (items ! j) < int nextIndex)"
      using fi j by (simp add: rodsFI_def)
    have b1: "sameBut (items1 ! j) (items ! j)" using s1 j by simp
    have b2: "sameBut (items2 ! j) (?itemsF ! j)" using s2 j by simp
    have c1: "j < nextIndex \<longrightarrow> isSelected (items1 ! j) = isSelected (items ! j)"
      using e1 by simp
    have c2: "j < nextIndex \<longrightarrow> isSelected (items2 ! j) = isSelected (?itemsF ! j)"
      using e2 by simp
    have F: "?itemsF ! j =
        (if j = nextIndex then (itemsB ! j)\<lparr>isSelected := False\<rparr> else itemsB ! j)"
      using j lB by (simp add: nth_setSelected)
    have B: "itemsB ! j =
        (if dominates items nextIndex j \<and> blockedBy (items ! j) < 0
         then (items1 ! j)\<lparr>blockedBy := int nextIndex\<rparr> else items1 ! j)"
      using nB j by simp
    have U: "itemsU ! j =
        (if dominates items nextIndex j \<and> blockedBy (items2 ! j) = int nextIndex
         then (items2 ! j)\<lparr>blockedBy := - 1\<rparr> else items2 ! j)"
      using nU j d2[OF j] by simp
    show ?thesis
      using a b1 b2 c1 c2 unfolding U F B
      by (auto simp: sameBut_def split: if_splits)
  qed
  then have "framed items nextIndex itemsU"
    using lU lt unfolding framed_iff[OF le(1), of itemsU] by auto
  with u show ?thesis by blast
qed

lemma doRodsTechnique_node:
  assumes "nextIndex < length items" "\<not> currentValue + remainingValue < bestValue"
    and "rodsInclude items allowedWeight nextIndex bestValue currentValue currentWeight
      remainingValue = Inr (test1, items1)"
    and "blockItems (items1 ! nextIndex) items1 = Inr itemsB"
    and "doRodsTechnique (setSelected itemsB nextIndex False) allowedWeight (Suc nextIndex)
        (max bestValue (valueOf test1)) currentValue currentWeight
        (remainingValue - item_value (setSelected itemsB nextIndex False ! nextIndex))
        = Inr (test2, items2)"
    and "unblockItems (items2 ! nextIndex) items2 = Inr itemsU"
  shows "doRodsTechnique items allowedWeight nextIndex bestValue currentValue
      currentWeight remainingValue = Inr (pick test1 test2, itemsU)"
  unfolding doRodsTechnique_unfold[OF assms(1,2)]
  by (simp add: assms(3,4,5,6) rodsExclude_def Let_def)

lemma doRodsTechnique_frame:
  "rodsFI items nextIndex \<Longrightarrow>
   \<exists>r items'. doRodsTechnique items allowedWeight nextIndex bestValue currentValue
       currentWeight remainingValue = Inr (r, items') \<and> framed items nextIndex items'"
proof (induction items allowedWeight nextIndex bestValue currentValue currentWeight
    remainingValue rule: doRodsTechnique_cases)
  case (leaf items allowedWeight nextIndex bestValue currentValue currentWeight remainingValue)
  then show ?case by (simp add: doRodsTechnique_leaf framed_refl)
next
  case (pruned items allowedWeight nextIndex bestValue currentValue currentWeight
      remainingValue)
  then show ?case by (simp add: doRodsTechnique_pruned framed_refl)
next
  case (node items allowedWeight nextIndex bestValue currentValue currentWeight
      remainingValue)
  note lt = node(1) and fi = node.prems
  have fiT: "rodsFI (setSelected items nextIndex True) (Suc nextIndex)"
    by (rule rodsFI_mono[OF rodsFI_setSelected[OF fi]]) simp
  from rodsInclude_frame[OF fi lt node(3)[OF _ fiT]] obtain test1 items1 where
    inc: "rodsInclude items allowedWeight nextIndex bestValue currentValue currentWeight
      remainingValue = Inr (test1, items1)" and f1: "framed items nextIndex items1"
    by blast
  from rodsBlock[OF fi lt f1] obtain itemsB where
    b: "blockItems (items1 ! nextIndex) items1 = Inr itemsB"
    and lB: "length itemsB = length items"
    and nB: "\<forall>j < length items. itemsB ! j =
        (if dominates items nextIndex j \<and> blockedBy (items ! j) < 0
         then (items1 ! j)\<lparr>blockedBy := int nextIndex\<rparr> else items1 ! j)"
    and fiF: "rodsFI (setSelected itemsB nextIndex False) (Suc nextIndex)"
    by blast
  from node(4)[OF inc b fiF] obtain test2 items2 where
    r2: "doRodsTechnique (setSelected itemsB nextIndex False) allowedWeight (Suc nextIndex)
        (max bestValue (valueOf test1)) currentValue currentWeight
        (remainingValue - item_value (setSelected itemsB nextIndex False ! nextIndex))
        = Inr (test2, items2)"
    and f2: "framed (setSelected itemsB nextIndex False) (Suc nextIndex) items2"
    by blast
  from rodsUnwind[OF fi lt f1 lB nB fiF f2] obtain itemsU where
    u: "unblockItems (items2 ! nextIndex) items2 = Inr itemsU"
    and fU: "framed items nextIndex itemsU"
    by blast
  from doRodsTechnique_node[OF node(1,2) inc b r2 u] fU show ?case by blast
qed

subsection \<open>Dominated items may be left out\<close>

lemma rknap_nonneg: "nonneg xs \<Longrightarrow> 0 \<le> rknap E xs c"
proof (induction xs arbitrary: E c)
  case Nil
  show ?case by simp
next
  case (Cons x xs)
  obtain v w where x: "x = (v, w)" by (cases x)
  with Cons.prems have n: "nonneg xs" "0 \<le> v" by simp_all
  show ?case
    using Cons.IH[OF n(1), of "insert x E" c] Cons.IH[OF n(1), of E "c - snd x"] n(2) x
    by (simp add: max_def)
qed

lemma rknap_le_knap: "nonneg xs \<Longrightarrow> rknap E xs c \<le> knap xs c"
proof (induction xs arbitrary: E c)
  case Nil
  show ?case by simp
next
  case (Cons x xs)
  obtain v w where x: "x = (v, w)" by (cases x)
  with Cons.prems have n: "nonneg xs" by simp
  show ?case
    using Cons.IH[OF n, of "insert x E" c] Cons.IH[OF n, of E "c - w"] x
    by (simp add: max_def)
qed

lemma mwt_nonneg: "nonneg xs \<Longrightarrow> 0 \<le> mwt xs bs"
proof (induction xs bs rule: mwt.induct)
  case (1 x xs b bs)
  obtain v w where x: "x = (v, w)" by (cases x)
  with 1 show ?case by simp
qed simp_all

lemma mask_update:
  "k < length xs \<Longrightarrow> length bs = length xs \<Longrightarrow> bs ! k \<Longrightarrow>
   mval xs (bs[k := False]) = mval xs bs - fst (xs ! k) \<and>
   mwt xs (bs[k := False]) = mwt xs bs - snd (xs ! k)"
proof (induction xs arbitrary: bs k)
  case Nil
  then show ?case by simp
next
  case (Cons x xs)
  then obtain b bs' where bs: "bs = b # bs'" by (cases bs) auto
  show ?case
  proof (cases k)
    case 0
    with Cons.prems bs show ?thesis by simp
  next
    case (Suc j)
    with Cons.prems bs Cons.IH[of j bs'] show ?thesis by simp
  qed
qed

lemma knap_achieved_mask:
  "0 \<le> c \<Longrightarrow> \<exists>sel. length sel = length xs \<and> mwt xs sel \<le> c \<and> mval xs sel = knap xs c"
proof (induction xs arbitrary: c)
  case Nil
  then show ?case by simp
next
  case (Cons x xs)
  obtain v w where x: "x = (v, w)" by (cases x)
  show ?case
  proof (cases "w \<le> c \<and> knap xs c < v + knap xs (c - w)")
    case True
    then have "0 \<le> c - w" by simp
    from Cons.IH[OF this] obtain sel where
      "length sel = length xs" "mwt xs sel \<le> c - w" "mval xs sel = knap xs (c - w)" by blast
    with True x show ?thesis
      by (intro exI[of _ "True # sel"]) (simp add: max_def)
  next
    case False
    from Cons.IH[OF Cons.prems] obtain sel where
      "length sel = length xs" "mwt xs sel \<le> c" "mval xs sel = knap xs c" by blast
    with False x show ?thesis
      by (intro exI[of _ "False # sel"]) (auto simp: max_def)
  qed
qed

lemma rknap_ge:
  "nonneg xs \<Longrightarrow> length sel = length xs \<Longrightarrow> mwt xs sel \<le> c \<Longrightarrow>
   \<forall>k < length xs. sel ! k \<longrightarrow> \<not> domBy E (xs ! k) \<Longrightarrow>
   mval xs sel \<le> rknap E xs c"
proof (induction xs arbitrary: E sel c)
  case Nil
  then show ?case by simp
next
  case (Cons x xs)
  then obtain b bs where sel: "sel = b # bs" by (cases sel) auto
  obtain v w where x: "x = (v, w)" by (cases x)
  have n: "nonneg xs" "0 \<le> w" using Cons.prems(1) x by simp_all
  have lb: "length bs = length xs" using Cons.prems(2) sel by simp
  have nd: "\<forall>k < length xs. bs ! k \<longrightarrow> \<not> domBy E (xs ! k)"
    using Cons.prems(4) sel by auto
  have w0: "0 \<le> mwt xs bs" by (rule mwt_nonneg[OF n(1)])
  show ?case
  proof (cases b)
    case True
    have ndx: "\<not> domBy E x" using Cons.prems(4) sel True by auto
    have wc: "w \<le> c" "mwt xs bs \<le> c - w" using Cons.prems(3) sel True x w0 by simp_all
    have "mval xs bs \<le> rknap E xs (c - w)" by (rule Cons.IH[OF n(1) lb wc(2) nd])
    with True sel x ndx wc show ?thesis by (simp add: max_def)
  next
    case False
    have wc: "mwt xs bs \<le> c" using Cons.prems(3) sel False by simp
    have lowerbound: "rknap (insert x E) xs c \<le> rknap E (x # xs) c" by (simp add: max_def)
    show ?thesis
    proof (cases "\<forall>k < length xs. bs ! k \<longrightarrow> \<not> domBy (insert x E) (xs ! k)")
      case True
      have "mval xs bs \<le> rknap (insert x E) xs c" by (rule Cons.IH[OF n(1) lb wc True])
      with lowerbound False sel show ?thesis by simp
    next
      case nt: False
      then obtain k where k: "k < length xs" "bs ! k" "domBy (insert x E) (xs ! k)" by blast
      have ndk: "\<not> domBy E (xs ! k)" using nd k by simp
      with k(3) have dx: "fst (xs ! k) \<le> v" "w \<le> snd (xs ! k)"
        using x by (auto simp: domBy_def)
      have ndx: "\<not> domBy E x"
      proof
        assume "domBy E x"
        then obtain e where "e \<in> E" "v \<le> fst e" "snd e \<le> w" using x by (auto simp: domBy_def)
        with dx have "domBy E (xs ! k)" by (auto simp: domBy_def intro!: bexI[of _ e])
        with ndk show False by simp
      qed
      let ?bs' = "bs[k := False]"
      have up: "mval xs ?bs' = mval xs bs - fst (xs ! k)" "mwt xs ?bs' = mwt xs bs - snd (xs ! k)"
        using mask_update[OF k(1) lb k(2)] by simp_all
      have w0': "0 \<le> mwt xs ?bs'" by (rule mwt_nonneg[OF n(1)])
      have wle: "w \<le> c" using up(2) w0' dx(2) wc by linarith
      have wc': "mwt xs ?bs' \<le> c - w" using up(2) dx(2) wc by linarith
      have nd': "\<forall>j < length xs. ?bs' ! j \<longrightarrow> \<not> domBy E (xs ! j)"
      proof (intro allI impI)
        fix j assume j: "j < length xs" "?bs' ! j"
        then have "bs ! j" using lb by (cases "j = k") (simp_all add: nth_list_update)
        with nd j(1) show "\<not> domBy E (xs ! j)" by simp
      qed
      have "mval xs ?bs' \<le> rknap E xs (c - w)"
        by (rule Cons.IH[OF n(1) _ wc' nd']) (simp add: lb)
      then have "mval xs bs \<le> v + rknap E xs (c - w)" using up(1) dx(1) by linarith
      with False sel x ndx wle show ?thesis by (simp add: max_def)
    qed
  qed
qed

lemma rknap_empty: "nonneg xs \<Longrightarrow> 0 \<le> c \<Longrightarrow> rknap {} xs c = knap xs c"
proof (rule antisym)
  assume n: "nonneg xs" and c: "0 \<le> c"
  show "rknap {} xs c \<le> knap xs c" by (rule rknap_le_knap[OF n])
  from knap_achieved_mask[OF c, of xs] obtain sel where
    s: "length sel = length xs" "mwt xs sel \<le> c" "mval xs sel = knap xs c" by blast
  have "mval xs sel \<le> rknap {} xs c"
    by (rule rknap_ge[OF n s(1,2)]) (simp add: domBy_def)
  with s(3) show "knap xs c \<le> rknap {} xs c" by simp
qed

subsection \<open>Rod's technique: excluded sets\<close>

lemma pairs_eqI:
  "length a = length b \<Longrightarrow>
   \<forall>j < length a. item_value (a ! j) = item_value (b ! j) \<and> weight (a ! j) = weight (b ! j) \<Longrightarrow>
   pairs a = pairs b"
  by (simp add: pairs_def list_eq_iff_nth_eq)

lemma sums_take_cong:
  "k \<le> length a \<Longrightarrow> length a = length b \<Longrightarrow> pairs a = pairs b \<Longrightarrow>
   \<forall>j < k. isSelected (a ! j) = isSelected (b ! j) \<Longrightarrow>
   sumValues (take k a) False = sumValues (take k b) False \<and>
   sumWeights (take k a) False = sumWeights (take k b) False"
proof (induction k)
  case 0
  show ?case by simp
next
  case (Suc k)
  then have "k < length a" "k < length b" by simp_all
  with Suc pairs_nth[OF Suc.prems(3), of k] show ?case
    by (simp add: take_Suc_conv_app_nth)
qed

lemma nodePre_cong:
  assumes "nodePre items allowedWeight k currentValue currentWeight remainingValue"
    and "length a = length items" "pairs a = pairs items"
    and "\<forall>j < k. isSelected (a ! j) = isSelected (items ! j)"
  shows "nodePre a allowedWeight k currentValue currentWeight remainingValue"
proof -
  have "k \<le> length a" using assms(1,2) by (simp add: nodePre_def)
  from sums_take_cong[OF this assms(2,3,4)] assms show ?thesis
    by (simp add: nodePre_def)
qed

lemma exSet_Suc:
  "exSet items (Suc k) =
     (if isSelected (items ! k) then exSet items k
      else insert (item_value (items ! k), weight (items ! k)) (exSet items k))"
  by (auto simp: exSet_def less_Suc_eq)

lemma exSet_cong:
  assumes "k \<le> length a" "length a = length b" "pairs a = pairs b"
    and "\<forall>j < k. isSelected (a ! j) = isSelected (b ! j)"
  shows "exSet a k = exSet b k"
proof -
  have "item_value (a ! j) = item_value (b ! j) \<and> weight (a ! j) = weight (b ! j)"
    if "j < k" for j
    using pairs_nth[OF assms(3), of j] that assms(1) by simp
  with assms(4) show ?thesis unfolding exSet_def by (intro Collect_cong) metis
qed

lemma exSet_setSelected:
  "k \<le> length items \<Longrightarrow> exSet (setSelected items k b) k = exSet items k"
  by (rule exSet_cong) (simp_all add: nth_setSelected)

lemma exSet_include:
  "nextIndex < length items \<Longrightarrow>
   exSet (setSelected items nextIndex True) (Suc nextIndex) = exSet items nextIndex"
  by (simp add: exSet_Suc exSet_setSelected nth_setSelected)

lemma exSet_exclude:
  "nextIndex < length items \<Longrightarrow>
   exSet (setSelected items nextIndex False) (Suc nextIndex) =
     insert (item_value (items ! nextIndex), weight (items ! nextIndex)) (exSet items nextIndex)"
  by (simp add: exSet_Suc exSet_setSelected nth_setSelected)

lemma domBy_exSet:
  "j < length items \<Longrightarrow> nextIndex \<le> j \<Longrightarrow>
   domBy (exSet items nextIndex) (item_value (items ! j), weight (items ! j)) \<longleftrightarrow>
     (\<exists>i < nextIndex. \<not> isSelected (items ! i) \<and> dominates items i j)"
  by (auto simp: domBy_def exSet_def dominates_def)

subsection \<open>Rod's technique: invariants along the branches\<close>

lemma rodsOpt_bounds:
  assumes "nodePre items allowedWeight nextIndex currentValue currentWeight remainingValue"
  shows "0 \<le> rodsOpt items allowedWeight nextIndex"
    and "rodsOpt items allowedWeight nextIndex \<le> currentValue + remainingValue"
proof -
  have n: "nonneg (pairs items)" using assms by (simp add: nodePre_def)
  have "0 \<le> sumValues (take nextIndex items) False"
    using sumValues_nonneg[OF nonneg_take[OF n]] .
  moreover have "0 \<le> rknap E (drop nextIndex (pairs items)) c" for E c
    using rknap_nonneg[OF nonneg_drop[OF n]] .
  ultimately show "0 \<le> rodsOpt items allowedWeight nextIndex"
    by (simp add: rodsOpt_def)
  have "rknap E (drop nextIndex (pairs items)) c \<le> totalValue (drop nextIndex (pairs items))"
    for E c
    using rknap_le_knap[OF nonneg_drop[OF n], of E nextIndex c]
      knap_le_total[OF nonneg_drop[OF n], of nextIndex c] by linarith
  then show "rodsOpt items allowedWeight nextIndex \<le> currentValue + remainingValue"
    using assms by (simp add: rodsOpt_def nodePre_def)
qed

lemma rodsSI_include:
  assumes "rodsSI items nextIndex" "nextIndex < length items"
  shows "rodsSI (setSelected items nextIndex True) (Suc nextIndex)"
proof -
  let ?T = "setSelected items nextIndex True"
  have d: "dominates ?T i j = dominates items i j" if "i < length items" "j < length items"
    for i j
    using that by (simp add: dominates_def nth_setSelected)
  have "(\<exists>i < Suc nextIndex. \<not> isSelected (?T ! i) \<and> dominates ?T i j) =
      (\<exists>i < nextIndex. \<not> isSelected (items ! i) \<and> dominates items i j)"
    if j: "j < length items" for j
  proof -
    have "(\<not> isSelected (?T ! i) \<and> dominates ?T i j) =
        (i < nextIndex \<and> \<not> isSelected (items ! i) \<and> dominates items i j)"
      if "i < Suc nextIndex" for i
      using that assms(2) j d[of i j] by (cases "i = nextIndex") (auto simp: nth_setSelected)
    then show ?thesis by (metis less_Suc_eq)
  qed
  with assms show ?thesis
    by (simp add: rodsSI_def nth_setSelected)
qed

lemma rodsSI_exclude:
  assumes si: "rodsSI items nextIndex" and lt: "nextIndex < length items"
    and f1: "framed items nextIndex items1"
    and lB: "length itemsB = length items"
    and nB: "\<forall>j < length items. itemsB ! j =
        (if dominates items nextIndex j \<and> blockedBy (items ! j) < 0
         then (items1 ! j)\<lparr>blockedBy := int nextIndex\<rparr> else items1 ! j)"
  shows "rodsSI (setSelected itemsB nextIndex False) (Suc nextIndex)"
proof -
  let ?F = "setSelected itemsB nextIndex False"
  have le: "nextIndex \<le> length items" using lt by simp
  have l1: "length items1 = length items"
    and s1: "\<forall>j < length items. sameBut (items1 ! j) (items ! j)"
    and e1: "\<forall>j < nextIndex. isSelected (items1 ! j) = isSelected (items ! j)"
    using f1 framed_iff[OF le] by simp_all
  have st: "\<forall>j < length ?F. sameStatic (?F ! j) (items ! j)"
    using s1 nB lB by (auto simp: sameBut_def sameStatic_def nth_setSelected)
  have d: "dominates ?F i j = dominates items i j" if "i < length items" "j < length items"
    for i j
    by (rule dominates_cong[OF st]) (use that lB in simp_all)
  have sel: "isSelected (?F ! i) = (if i = nextIndex then False else isSelected (items ! i))"
    if "i < Suc nextIndex" for i
    using that lt lB nB e1 by (auto simp: nth_setSelected)
  have "(0 \<le> blockedBy (?F ! j)) =
      (\<exists>i < Suc nextIndex. \<not> isSelected (?F ! i) \<and> dominates ?F i j)"
    if j: "j < length items" for j
  proof -
    have b: "(0 \<le> blockedBy (?F ! j)) =
        (dominates items nextIndex j \<or> 0 \<le> blockedBy (items ! j))"
      using j lB nB s1 by (auto simp: nth_setSelected sameBut_def)
    have "(\<exists>i < Suc nextIndex. \<not> isSelected (?F ! i) \<and> dominates ?F i j) =
        (dominates items nextIndex j \<or>
         (\<exists>i < nextIndex. \<not> isSelected (items ! i) \<and> dominates items i j))"
    proof -
      have "(\<not> isSelected (?F ! i) \<and> dominates ?F i j) =
          (if i = nextIndex then dominates items nextIndex j
           else \<not> isSelected (items ! i) \<and> dominates items i j)"
        if "i < Suc nextIndex" for i
        using that sel[OF that] d[of i j] j lt by auto
      then show ?thesis
        unfolding less_Suc_eq by (metis less_irrefl)
    qed
    with b si j show ?thesis by (simp add: rodsSI_def)
  qed
  then show ?thesis using lB by (simp add: rodsSI_def)
qed

subsection \<open>Rod's technique: the returned value\<close>

lemma rodsOpt_include:
  "nextIndex < length items \<Longrightarrow>
   rodsOpt (setSelected items nextIndex True) allowedWeight (Suc nextIndex) =
     sumValues (take nextIndex items) False + item_value (items ! nextIndex) +
     rknap (exSet items nextIndex) (drop (Suc nextIndex) (pairs items))
       (allowedWeight - sumWeights (take nextIndex items) False - weight (items ! nextIndex))"
  by (simp add: rodsOpt_def take_Suc_setSelected exSet_include algebra_simps)

lemma rodsOpt_exclude:
  "nextIndex < length items \<Longrightarrow>
   rodsOpt (setSelected items nextIndex False) allowedWeight (Suc nextIndex) =
     sumValues (take nextIndex items) False +
     rknap (insert (item_value (items ! nextIndex), weight (items ! nextIndex))
              (exSet items nextIndex))
       (drop (Suc nextIndex) (pairs items))
       (allowedWeight - sumWeights (take nextIndex items) False)"
  by (simp add: rodsOpt_def take_Suc_setSelected exSet_exclude)

lemma rodsOpt_cong:
  assumes "k \<le> length a" "length a = length b" "pairs a = pairs b"
    and "\<forall>j < k. isSelected (a ! j) = isSelected (b ! j)"
  shows "rodsOpt a allowedWeight k = rodsOpt b allowedWeight k"
  using sums_take_cong[OF assms] exSet_cong[OF assms] assms(3)
  by (simp add: rodsOpt_def)

lemma rodsOpt_node:
  "nextIndex < length items \<Longrightarrow>
   rodsOpt items allowedWeight nextIndex =
     (if weight (items ! nextIndex) \<le> allowedWeight - sumWeights (take nextIndex items) False
         \<and> \<not> domBy (exSet items nextIndex)
               (item_value (items ! nextIndex), weight (items ! nextIndex))
      then max (rodsOpt (setSelected items nextIndex False) allowedWeight (Suc nextIndex))
               (rodsOpt (setSelected items nextIndex True) allowedWeight (Suc nextIndex))
      else rodsOpt (setSelected items nextIndex False) allowedWeight (Suc nextIndex))"
  by (simp add: rodsOpt_include rodsOpt_exclude)
    (simp add: rodsOpt_def drop_pairs_Cons max_def algebra_simps)

lemma rodsOpt_leaf:
  "length items \<le> nextIndex \<Longrightarrow> rodsOpt items allowedWeight nextIndex = sumValues items False"
  by (simp add: rodsOpt_def)

lemma doRodsTechnique_post:
  "nodePre items allowedWeight nextIndex currentValue currentWeight remainingValue \<Longrightarrow>
   rodsFI items nextIndex \<Longrightarrow> rodsSI items nextIndex \<Longrightarrow>
   doRodsTechnique items allowedWeight nextIndex bestValue currentValue currentWeight
     remainingValue = Inr (r, items') \<Longrightarrow>
   rodsPost items allowedWeight nextIndex bestValue r"
proof (induction items allowedWeight nextIndex bestValue currentValue currentWeight
    remainingValue arbitrary: r items' rule: doRodsTechnique_cases)
  case (leaf items allowedWeight nextIndex bestValue currentValue currentWeight remainingValue)
  then have "nextIndex = length items" "sumWeights items False \<le> allowedWeight"
    "0 \<le> sumValues items False"
    using sumValues_nonneg[of items False] by (auto simp: nodePre_def)
  with leaf show ?case
    by (auto simp: doRodsTechnique_leaf rodsPost_def rodsOpt_leaf goodResult_def
        solutionOf_def valueOf_def solutionValue_def)
next
  case (pruned items allowedWeight nextIndex bestValue currentValue currentWeight
      remainingValue)
  with rodsOpt_bounds[OF pruned.prems(1)] show ?case
    by (auto simp: doRodsTechnique_pruned rodsPost_def valueOf_def)
next
  case (node items allowedWeight nextIndex bestValue currentValue currentWeight
      remainingValue)
  note lt = node(1) and pre = node.prems(1) and fi = node.prems(2) and si = node.prems(3)
  let ?v = "item_value (items ! nextIndex)"
  let ?w = "weight (items ! nextIndex)"
  let ?T = "setSelected items nextIndex True"
  have le: "nextIndex \<le> length items" using lt by simp
  define cond where "cond \<longleftrightarrow> currentWeight + ?w \<le> allowedWeight \<and>
      blockedBy (items ! nextIndex) < 0"
  define Oin where "Oin = rodsOpt ?T allowedWeight (Suc nextIndex)"
  define Oex where "Oex = rodsOpt (setSelected items nextIndex False) allowedWeight
      (Suc nextIndex)"
  have cw: "currentWeight = sumWeights (take nextIndex items) False"
    and nn: "nonneg (pairs items)"
    using pre by (simp_all add: nodePre_def)
  have fiT: "rodsFI ?T (Suc nextIndex)"
    by (rule rodsFI_mono[OF rodsFI_setSelected[OF fi]]) simp
  have preT: "nodePre ?T allowedWeight (Suc nextIndex) (currentValue + ?v)
      (currentWeight + ?w) (remainingValue - ?v)" if cond
    using nodePre_include[OF pre lt] that by (simp add: cond_def)
  from rodsInclude_frame[OF fi lt doRodsTechnique_frame[OF fiT]] obtain test1 items1 where
    inc: "rodsInclude items allowedWeight nextIndex bestValue currentValue currentWeight
      remainingValue = Inr (test1, items1)" and f1: "framed items nextIndex items1"
    by blast
  from rodsBlock[OF fi lt f1] obtain itemsB where
    b: "blockItems (items1 ! nextIndex) items1 = Inr itemsB"
    and lB: "length itemsB = length items"
    and nB: "\<forall>j < length items. itemsB ! j =
        (if dominates items nextIndex j \<and> blockedBy (items ! j) < 0
         then (items1 ! j)\<lparr>blockedBy := int nextIndex\<rparr> else items1 ! j)"
    and fiF: "rodsFI (setSelected itemsB nextIndex False) (Suc nextIndex)"
    by blast
  let ?F = "setSelected itemsB nextIndex False"
  from doRodsTechnique_frame[OF fiF] obtain test2 items2 where
    r2: "doRodsTechnique ?F allowedWeight (Suc nextIndex)
        (max bestValue (valueOf test1)) currentValue currentWeight
        (remainingValue - item_value (?F ! nextIndex)) = Inr (test2, items2)"
    and f2: "framed ?F (Suc nextIndex) items2"
    by blast
  from rodsUnwind[OF fi lt f1 lB nB fiF f2] obtain itemsU where
    u: "unblockItems (items2 ! nextIndex) items2 = Inr itemsU"
    by blast
  have res: "r = pick test1 test2"
    using doRodsTechnique_node[OF node(1,2) inc b r2 u] node.prems(4) by simp
  have l1: "length items1 = length items"
    and s1: "\<forall>j < length items. sameBut (items1 ! j) (items ! j)"
    and e1: "\<forall>j < nextIndex. isSelected (items1 ! j) = isSelected (items ! j)"
    using f1 framed_iff[OF le] by simp_all
  have lF: "length ?F = length (setSelected items nextIndex False)" using lB by simp
  have pF: "pairs ?F = pairs (setSelected items nextIndex False)"
    by (rule pairs_eqI[OF lF]) (use nB s1 lB in \<open>auto simp: nth_setSelected sameBut_def\<close>)
  have eF: "\<forall>j < Suc nextIndex. isSelected (?F ! j) =
      isSelected (setSelected items nextIndex False ! j)"
    using lt lB nB e1 by (auto simp: nth_setSelected)
  have vF: "item_value (?F ! nextIndex) = ?v"
    using pairs_nth[OF pF, of nextIndex] lt lB by (simp add: nth_setSelected)
  have preF: "nodePre ?F allowedWeight (Suc nextIndex) currentValue currentWeight
      (remainingValue - item_value (?F ! nextIndex))"
    unfolding vF
    by (rule nodePre_cong[OF _ lF pF eF])
      (use nodePre_exclude[OF pre lt refl refl refl] lt in \<open>simp add: nth_setSelected_fields\<close>)
  have siF: "rodsSI ?F (Suc nextIndex)" by (rule rodsSI_exclude[OF si lt f1 lB nB])
  have oF: "rodsOpt ?F allowedWeight (Suc nextIndex) = Oex"
    unfolding Oex_def by (rule rodsOpt_cong[OF _ lF pF eF]) (use lt lB in simp)
  have c: "cond \<longleftrightarrow> ?w \<le> allowedWeight - sumWeights (take nextIndex items) False \<and>
      \<not> domBy (exSet items nextIndex) (?v, ?w)"
    using si lt domBy_exSet[OF lt le_refl] by (auto simp: cond_def cw rodsSI_def)
  have O: "rodsOpt items allowedWeight nextIndex = (if cond then max Oex Oin else Oex)"
    unfolding rodsOpt_node[OF lt] c Oex_def Oin_def by simp
  have A1: "rodsPost ?T allowedWeight (Suc nextIndex) bestValue test1" if cond
  proof -
    have "doRodsTechnique ?T allowedWeight (Suc nextIndex) bestValue (currentValue + ?v)
        (currentWeight + ?w) (remainingValue - ?v) = Inr (test1, items1)"
      using inc that lt by (simp add: rodsInclude_go cond_def)
    from node(3)[OF that[unfolded cond_def] preT[OF that] fiT rodsSI_include[OF si lt] this]
    show ?thesis .
  qed
  have A1': "test1 = (None, 0, 1)" if "\<not> cond"
    using inc that by (simp add: rodsInclude_skip cond_def)
  have A2: "rodsPost ?F allowedWeight (Suc nextIndex) (max bestValue (valueOf test1)) test2"
    by (rule node(4)[OF inc b preF fiF siF r2])
  have g1: "goodResult items allowedWeight test1"
  proof (cases cond)
    case True
    show ?thesis
      by (rule goodResult_cong[of ?T]) (use A1[OF True] in \<open>simp_all add: rodsPost_def\<close>)
  next
    case False
    with A1' show ?thesis by simp
  qed
  have g2: "goodResult items allowedWeight test2"
    by (rule goodResult_cong[of ?F]) (use A2 pF in \<open>simp_all add: rodsPost_def\<close>)
  have preE: "nodePre (setSelected items nextIndex False) allowedWeight (Suc nextIndex)
      currentValue currentWeight (remainingValue - ?v)"
    using nodePre_exclude[OF pre lt refl refl refl] lt by (simp add: nth_setSelected_fields)
  have Oex0: "0 \<le> Oex" unfolding Oex_def by (rule rodsOpt_bounds(1)[OF preE])
  have arith: "0 \<le> max (valueOf test1) (valueOf test2) \<and>
      max (valueOf test1) (valueOf test2) \<le> (if cond then max Oex Oin else Oex) \<and>
      (bestValue < (if cond then max Oex Oin else Oex) \<longrightarrow>
         max (valueOf test1) (valueOf test2) = (if cond then max Oex Oin else Oex))"
  proof (cases cond)
    case True
    show ?thesis
      using A1[OF True] A2 True Oex0
      by (auto simp: rodsPost_def oF Oin_def[symmetric] max_def split: if_splits)
  next
    case False
    show ?thesis
      using A1'[OF False] A2 False Oex0
      by (auto simp: rodsPost_def oF valueOf_def max_def split: if_splits)
  qed
  show ?case
    unfolding res rodsPost_def valueOf_pick O
    using arith goodResult_pick[OF g1 g2] by simp
qed

subsection \<open>Rod's technique: the entry points\<close>

lemma length_makeBlockLists [simp]: "length (makeBlockLists items) = length items"
  by (simp add: makeBlockLists_def)

lemma nth_makeBlockLists:
  "i < length items \<Longrightarrow>
   makeBlockLists items ! i = (items ! i)\<lparr>blockList := dominatedIds items i\<rparr>"
  by (simp add: makeBlockLists_def)

lemma pairs_makeBlockLists [simp]: "pairs (makeBlockLists items) = pairs items"
  by (rule pairs_eqI) (simp_all add: nth_makeBlockLists)

lemma rodsWf_makeBlockLists:
  assumes "freshIds items"
  shows "rodsWf (makeBlockLists items)"
  unfolding rodsWf_def
proof (intro allI impI)
  fix i assume "i < length (makeBlockLists items)"
  then have i: "i < length items" by simp
  have "dominatedIds (makeBlockLists items) i = dominatedIds items i"
    by (rule dominatedIds_cong_fields) (use i in \<open>simp_all add: nth_makeBlockLists\<close>)
  with assms i show "item_id (makeBlockLists items ! i) = int i \<and>
      blockList (makeBlockLists items ! i) = dominatedIds (makeBlockLists items) i"
    by (simp add: nth_makeBlockLists freshIds_def)
qed

lemma unblocked_iff: "unblocked items \<longleftrightarrow> (\<forall>i < length items. blockedBy (items ! i) = - 1)"
  by (simp add: unblocked_def all_set_conv_all_nth)

lemma unblocked_nth: "unblocked items \<Longrightarrow> i < length items \<Longrightarrow> blockedBy (items ! i) = - 1"
  by (simp add: unblocked_iff)

lemma rodsStart:
  assumes "rodsWf items" "unblocked items" "nonneg (pairs items)" "0 \<le> allowedWeight"
  shows "\<exists>r items'. doRodsTechnique items allowedWeight 0 0 0 0 (sumValues items True)
        = Inr (r, items') \<and> framed items 0 items' \<and>
      valueOf r = knap (pairs items) allowedWeight \<and> goodResult items allowedWeight r"
proof -
  have fi: "rodsFI items 0" using assms(1,2) by (simp add: rodsFI_def unblocked_nth)
  have si: "rodsSI items 0" using assms(2) by (simp add: rodsSI_def unblocked_nth)
  have pre: "nodePre items allowedWeight 0 0 0 (sumValues items True)"
    using assms(3,4) by (simp add: nodePre_def sumValues_True)
  from doRodsTechnique_frame[OF fi] obtain r items' where
    r: "doRodsTechnique items allowedWeight 0 0 0 0 (sumValues items True) = Inr (r, items')"
    and f: "framed items 0 items'" by blast
  have o: "rodsOpt items allowedWeight 0 = knap (pairs items) allowedWeight"
    using rknap_empty[OF assms(3,4)] by (simp add: rodsOpt_def exSet_def)
  have k0: "0 \<le> knap (pairs items) allowedWeight" by (rule knap_nonneg[OF assms(3)])
  from doRodsTechnique_post[OF pre fi si r] have
    "valueOf r = knap (pairs items) allowedWeight" "goodResult items allowedWeight r"
    using k0 by (auto simp: rodsPost_def o)
  with r f show ?thesis by blast
qed

lemma rodsTechnique_ok:
  assumes "freshIds items" "unblocked items" "nonneg (pairs items)" "0 \<le> allowedWeight"
  shows "\<exists>r items'. rodsTechnique items allowedWeight = Inr (r, items') \<and>
      valueOf r = knap (pairs items) allowedWeight \<and> goodResult items allowedWeight r"
proof -
  let ?items1 = "makeBlockLists items"
  have u: "unblocked ?items1"
    using assms(2)
    by (simp add: unblocked_iff nth_makeBlockLists)
  have n1: "nonneg (pairs ?items1)" using assms(3) by simp
  from rodsStart[OF rodsWf_makeBlockLists[OF assms(1)] u n1 assms(4)]
  obtain r items' where
    d: "doRodsTechnique ?items1 allowedWeight 0 0 0 0 (sumValues ?items1 True) = Inr (r, items')"
    and v: "valueOf r = knap (pairs ?items1) allowedWeight"
    and g: "goodResult ?items1 allowedWeight r"
    by blast
  have "rodsTechnique items allowedWeight = Inr (r, items')"
    using d by (simp add: rodsTechnique_def Let_def)
  moreover have "valueOf r = knap (pairs items) allowedWeight" using v by simp
  moreover have "goodResult items allowedWeight r"
    by (rule goodResult_cong[OF _ g]) simp
  ultimately show ?thesis by blast
qed

lemma length_resetIds [simp]: "length (resetIds items) = length items"
  by (simp add: resetIds_def)

lemma nth_resetIds:
  "i < length items \<Longrightarrow> resetIds items ! i = (items ! i)\<lparr>item_id := int i\<rparr>"
  by (simp add: resetIds_def)

lemma pairs_resetIds [simp]: "pairs (resetIds items) = pairs items"
  by (rule pairs_eqI) (simp_all add: nth_resetIds)

lemma rodsTechniqueSorted_ok:
  assumes perm: "mset (sortSlice (\<lambda>a b. length (blockList a) > length (blockList b))
             (makeBlockLists items)) = mset (makeBlockLists items)"
    and "unblocked items" "nonneg (pairs items)" "0 \<le> allowedWeight"
  shows "\<exists>r items' sorted. rodsTechniqueSorted sortSlice items allowedWeight = Inr (r, items') \<and>
      valueOf r = knap (pairs items) allowedWeight \<and>
      mset (pairs sorted) = mset (pairs items) \<and> goodResult sorted allowedWeight r"
proof -
  let ?items1 = "makeBlockLists items"
  let ?items2 = "sortSlice (\<lambda>a b. length (blockList a) > length (blockList b)) ?items1"
  let ?items3 = "resetIds ?items2"
  let ?items4 = "makeBlockLists ?items3"
  have u1: "unblocked ?items1"
    using assms(2) by (simp add: unblocked_iff nth_makeBlockLists)
  have "set ?items2 = set ?items1" using perm by (rule mset_eq_setD)
  with u1 have u2: "unblocked ?items2" by (simp add: unblocked_def)
  then have u3: "unblocked ?items3"
    by (simp add: unblocked_iff nth_resetIds)
  then have u4: "unblocked ?items4"
    by (simp add: unblocked_iff nth_makeBlockLists)
  have f3: "freshIds ?items3" by (simp add: freshIds_def nth_resetIds)
  have "mset (pairs ?items2) = mset (pairs ?items1)"
    unfolding pairs_def using perm by (metis mset_map)
  then have p4: "mset (pairs ?items4) = mset (pairs items)" by simp
  then have "set (pairs ?items4) = set (pairs items)" by (rule mset_eq_setD)
  with assms(3) have n4: "nonneg (pairs ?items4)" by (simp add: nonneg_def)
  have k: "knap (pairs ?items4) allowedWeight = knap (pairs items) allowedWeight"
    by (rule knap_mset[OF p4]) (use n4 in \<open>auto simp: nonneg_def\<close>)
  from rodsStart[OF rodsWf_makeBlockLists[OF f3] u4 n4 assms(4)]
  obtain r items' where
    "doRodsTechnique ?items4 allowedWeight 0 0 0 0 (sumValues ?items4 True) = Inr (r, items')"
    "valueOf r = knap (pairs ?items4) allowedWeight" "goodResult ?items4 allowedWeight r"
    by blast
  with k p4 show ?thesis
    unfolding rodsTechniqueSorted_def Let_def by metis
qed

lemma doRodsTechnique_calls:
  "doRodsTechnique items allowedWeight nextIndex bestValue currentValue currentWeight
     remainingValue = Inr (r, items') \<Longrightarrow>
   length items' = length items \<and> 1 \<le> callsOf r \<and>
   callsOf r \<le> 2 ^ (length items - nextIndex + 1) - 1"
proof (induction items allowedWeight nextIndex bestValue currentValue currentWeight
    remainingValue arbitrary: r items' rule: doRodsTechnique_cases)
  case (leaf items allowedWeight nextIndex bestValue currentValue currentWeight remainingValue)
  then show ?case by (auto simp: doRodsTechnique_leaf callsOf_def)
next
  case (pruned items allowedWeight nextIndex bestValue currentValue currentWeight
      remainingValue)
  have "(1::int) \<le> 2 ^ (length items - nextIndex + 1) - 1" by (rule two_power_bound)
  with pruned show ?case by (auto simp: doRodsTechnique_pruned callsOf_def)
next
  case (node items allowedWeight nextIndex bestValue currentValue currentWeight
      remainingValue)
  let ?b = "(2::int) ^ (length items - Suc nextIndex + 1) - 1"
  have b1: "(1::int) \<le> ?b" by (rule two_power_bound)
  note eq = node.prems[unfolded doRodsTechnique_unfold[OF node(1,2)]]
  from eq obtain test1 items1 where
    inc: "rodsInclude items allowedWeight nextIndex bestValue currentValue currentWeight
      remainingValue = Inr (test1, items1)"
    by (auto split: sum.splits)
  from eq inc obtain test2 itemsU where
    exc: "rodsExclude items1 allowedWeight nextIndex (max bestValue (valueOf test1))
      currentValue currentWeight remainingValue = Inr (test2, itemsU)"
    and r: "r = pick test1 test2" "items' = itemsU"
    by (auto split: sum.splits)
  from exc obtain itemsB items2 where
    b: "blockItems (items1 ! nextIndex) items1 = Inr itemsB"
    and r2: "doRodsTechnique (setSelected itemsB nextIndex False) allowedWeight
        (Suc nextIndex) (max bestValue (valueOf test1)) currentValue currentWeight
        (remainingValue - item_value (setSelected itemsB nextIndex False ! nextIndex))
        = Inr (test2, items2)"
    and u: "unblockItems (items2 ! nextIndex) items2 = Inr itemsU"
    by (auto simp: rodsExclude_def Let_def split: sum.splits)
  have c1: "length items1 = length items \<and> 1 \<le> callsOf test1 \<and> callsOf test1 \<le> ?b"
  proof (cases "currentWeight + weight (items ! nextIndex) \<le> allowedWeight \<and>
      blockedBy (items ! nextIndex) < 0")
    case True
    with inc node(1) have "doRodsTechnique (setSelected items nextIndex True) allowedWeight
        (Suc nextIndex) bestValue (currentValue + item_value (items ! nextIndex))
        (currentWeight + weight (items ! nextIndex))
        (remainingValue - item_value (items ! nextIndex)) = Inr (test1, items1)"
      by (simp add: rodsInclude_go)
    from node(3)[OF True this] show ?thesis by simp
  next
    case False
    with inc b1 show ?thesis by (auto simp: rodsInclude_skip callsOf_def)
  qed
  have lB: "length itemsB = length items1"
    using b by (auto simp: blockItems_def dest: blockLoop_length)
  have c2: "length items2 = length items \<and> 1 \<le> callsOf test2 \<and> callsOf test2 \<le> ?b"
    using node(4)[OF inc b r2] lB c1 by simp
  have lU: "length itemsU = length items2"
    using u by (auto simp: unblockItems_def dest: unblockLoop_length)
  have e: "length items - nextIndex = Suc (length items - Suc nextIndex)"
    using node(1) by simp
  have "callsOf (pick test1 test2) = callsOf test1 + callsOf test2 + 1"
    by (simp add: pick_def callsOf_def)
  with c1 c2 lU r show ?case by (simp add: e)
qed

section \<open>Auxiliary facts for the claims\<close>

lemma mset_insertBy: "mset (insertBy lessFn x xs) = add_mset x (mset xs)"
  by (induction xs) simp_all

lemma mset_insertionSort: "mset (insertionSort lessFn xs) = mset xs"
  by (induction xs) (simp_all add: mset_insertBy)

lemma knap_mono: "c \<le> c' \<Longrightarrow> knap xs c \<le> knap xs c'"
proof (induction xs arbitrary: c c')
  case Nil
  show ?case by simp
next
  case (Cons x xs)
  obtain v w where x: "x = (v, w)" by (cases x)
  have a: "knap xs c \<le> knap xs c'" using Cons.IH[OF Cons.prems] .
  have b: "knap xs (c - w) \<le> knap xs (c' - w)"
    using Cons.IH[of "c - w" "c' - w"] Cons.prems by simp
  show ?case using a b Cons.prems by (auto simp: x max_def)
qed

lemma scenario_facts:
  "scenario \<noteq> []" "positive scenario" "freshIds scenario" "unblocked scenario"
  "unselected scenario"
  by (simp_all add: scenario_def mkItem_def positive_def freshIds_def unblocked_def
      unselected_def nth_Cons' )

lemma twins_facts:
  "twins \<noteq> []" "positive twins" "freshIds twins" "unblocked twins" "unselected twins"
  by (simp_all add: twins_def mkItem_def positive_def freshIds_def unblocked_def
      unselected_def nth_Cons')

lemma unselected_nth: "unselected items \<Longrightarrow> \<forall>i < length items. \<not> isSelected (items ! i)"
  by (simp add: unselected_def)

lemma goodResult_slice:
  assumes "goodResult items allowedWeight r" "0 \<le> allowedWeight"
  shows "sumWeights (sliceItems (solutionOf r)) False \<le> allowedWeight \<and>
         sumValues (sliceItems (solutionOf r)) False = valueOf r"
  using assms by (auto simp: goodResult_def sliceItems_def split: option.splits)

lemma exhaustiveSearch_selection:
  assumes "nonneg (pairs items)" "0 \<le> allowedWeight"
  shows "\<exists>sel. solutionOf (fst (exhaustiveSearch items allowedWeight)) = Some sel \<and>
      clearSel sel = clearSel items \<and> sumWeights sel False \<le> allowedWeight \<and>
      sumValues sel False = valueOf (fst (exhaustiveSearch items allowedWeight))"
proof -
  obtain s where s: "solutionOf (fst (doExhaustiveSearch items allowedWeight 0)) = Some s"
      "clearSel s = clearSel items"
      "valueOf (fst (doExhaustiveSearch items allowedWeight 0)) = solutionValue s allowedWeight"
    using doExhaustiveSearch_solution[of items allowedWeight 0] by blast
  have "0 \<le> valueOf (fst (exhaustiveSearch items allowedWeight))"
    using exhaustiveSearch_value[OF assms] knap_nonneg[OF assms(1)] by simp
  then have "0 \<le> solutionValue s allowedWeight"
    using s(3) by (simp add: exhaustiveSearch_def)
  then have "sumWeights s False \<le> allowedWeight \<and>
      solutionValue s allowedWeight = sumValues s False"
    by (auto simp: solutionValue_def split: if_splits)
  then show ?thesis using s by (simp add: exhaustiveSearch_def)
qed

lemma map_blockedBy_clearSel:
  "clearSel a = clearSel b \<Longrightarrow> map blockedBy a = map blockedBy b"
proof -
  assume "clearSel a = clearSel b"
  then have "map blockedBy (clearSel a) = map blockedBy (clearSel b)" by simp
  then show ?thesis by (simp add: clearSel_def comp_def)
qed

lemma rodsFI_start:
  assumes "freshIds items" "unblocked items"
  shows "rodsFI (makeBlockLists items) 0"
proof -
  have "rodsWf (makeBlockLists items)" using assms(1) by (rule rodsWf_makeBlockLists)
  moreover have "unblocked (makeBlockLists items)"
    using assms(2) by (simp add: unblocked_iff nth_makeBlockLists)
  ultimately show ?thesis by (simp add: rodsFI_def unblocked_iff)
qed

lemma stale_facts: "staleItems \<noteq> []" "positive staleItems"
  by (simp_all add: staleItems_def mkItem_def positive_def)

subsection \<open>Rod's technique for every blocking state\<close>

lemma update_blockedBy_kept:
  "i < length items \<Longrightarrow>
   pairs (items[i := (items ! i)\<lparr>blockedBy := b\<rparr>]) = pairs items \<and>
   map isSelected (items[i := (items ! i)\<lparr>blockedBy := b\<rparr>]) = map isSelected items"
  by (simp add: pairs_def list_eq_iff_nth_eq nth_list_update)

lemma blockLoop_kept:
  "blockLoop sid ids items = Inr items' \<Longrightarrow>
   length items' = length items \<and> pairs items' = pairs items \<and>
   map isSelected items' = map isSelected items"
proof (induction sid ids items rule: blockLoop.induct)
  case (1 sourceId items)
  then show ?case by simp
next
  case (2 sourceId otherId rest items)
  from "2.prems" have r: "0 \<le> otherId \<and> otherId < int (length items)"
    by (simp split: if_splits)
  then have n: "nat otherId < length items" by linarith
  show ?case
  proof (cases "blockedBy (items ! nat otherId) < 0")
    case True
    with "2.prems" r have
      "blockLoop sourceId rest (items[nat otherId := (items ! nat otherId)\<lparr>blockedBy := sourceId\<rparr>])
         = Inr items'" by simp
    from "2.IH"[OF r] True this update_blockedBy_kept[OF n, of sourceId]
    show ?thesis by simp
  next
    case False
    with "2.prems" r have "blockLoop sourceId rest items = Inr items'" by simp
    from "2.IH"[OF r] False this show ?thesis by simp
  qed
qed

lemma unblockLoop_kept:
  "unblockLoop sid ids items = Inr items' \<Longrightarrow>
   length items' = length items \<and> pairs items' = pairs items \<and>
   map isSelected items' = map isSelected items"
proof (induction sid ids items rule: unblockLoop.induct)
  case (1 sourceId items)
  then show ?case by simp
next
  case (2 sourceId otherId rest items)
  from "2.prems" have r: "0 \<le> otherId \<and> otherId < int (length items)"
    by (simp split: if_splits)
  then have n: "nat otherId < length items" by linarith
  show ?case
  proof (cases "blockedBy (items ! nat otherId) = sourceId")
    case True
    with "2.prems" r have
      "unblockLoop sourceId rest (items[nat otherId := (items ! nat otherId)\<lparr>blockedBy := - 1\<rparr>])
         = Inr items'" by simp
    from "2.IH"[OF r] True this update_blockedBy_kept[OF n, of "- 1"]
    show ?thesis by simp
  next
    case False
    with "2.prems" r have "unblockLoop sourceId rest items = Inr items'" by simp
    from "2.IH"[OF r] False this show ?thesis by simp
  qed
qed

lemma kept_refl: "kept items k items"
  by (simp add: kept_def)

lemma kept_block:
  assumes "kept items k items1" "blockLoop sid ids items1 = Inr itemsB"
  shows "kept items k itemsB"
  using assms(1) blockLoop_kept[OF assms(2)] by (simp add: kept_def)

lemma kept_unblock:
  assumes "kept items k items1" "unblockLoop sid ids items1 = Inr itemsU"
  shows "kept items k itemsU"
  using assms(1) unblockLoop_kept[OF assms(2)] by (simp add: kept_def)

lemma kept_nth:
  assumes "kept items k items'" "k \<le> length items"
  shows "\<forall>j < k. isSelected (items' ! j) = isSelected (items ! j)"
proof (intro allI impI)
  fix j assume j: "j < k"
  from assms(1) have l: "length items' = length items"
    and t: "take k (map isSelected items') = take k (map isSelected items)"
    by (simp_all add: kept_def)
  have "take k (map isSelected items') ! j = isSelected (items' ! j)"
    using j assms(2) l by simp
  moreover have "take k (map isSelected items) ! j = isSelected (items ! j)"
    using j assms(2) by simp
  ultimately show "isSelected (items' ! j) = isSelected (items ! j)" using t by simp
qed

lemma kept_setSelected:
  assumes "kept (setSelected items k b) (Suc k) items'"
  shows "kept items k items'"
proof -
  from assms have l: "length items' = length items" and p: "pairs items' = pairs items"
    and t: "take (Suc k) (map isSelected items') = take (Suc k) (map isSelected (setSelected items k b))"
    by (simp_all add: kept_def)
  have "take k (map isSelected (setSelected items k b)) = take k (map isSelected items)"
    by (simp add: setSelected_def map_update)
  moreover have "take k (map isSelected items') = take k (map isSelected (setSelected items k b))"
    using t by (rule take_Suc_eq_take)
  ultimately show ?thesis using l p by (simp add: kept_def)
qed

lemma kept_trans:
  "kept a k b \<Longrightarrow> kept b k c \<Longrightarrow> kept a k c"
  by (simp add: kept_def)

lemma nodePre_kept:
  assumes "nodePre items allowedWeight k currentValue currentWeight remainingValue"
    and "kept items k items'"
  shows "nodePre items' allowedWeight k currentValue currentWeight remainingValue"
proof -
  have k: "k \<le> length items" using assms(1) by (simp add: nodePre_def)
  show ?thesis
    using nodePre_cong[OF assms(1), of items'] assms(2) kept_nth[OF assms(2) k]
    by (simp add: kept_def)
qed

lemma doRodsTechnique_sound:
  "nodePre items allowedWeight nextIndex currentValue currentWeight remainingValue \<Longrightarrow>
   doRodsTechnique items allowedWeight nextIndex bestValue currentValue currentWeight
     remainingValue = Inr (r, items') \<Longrightarrow>
   kept items nextIndex items' \<and> goodResult items allowedWeight r"
proof (induction items allowedWeight nextIndex bestValue currentValue currentWeight
    remainingValue arbitrary: r items' rule: doRodsTechnique_cases)
  case (leaf items allowedWeight nextIndex bestValue currentValue currentWeight remainingValue)
  from leaf.hyps leaf.prems(1) have n: "nextIndex = length items" by (simp add: nodePre_def)
  from leaf.prems(2) have r: "r = (Some items, solutionValue items allowedWeight, 1)"
      and i: "items' = items"
    by (auto simp: doRodsTechnique_leaf[OF leaf.hyps])
  have "sumWeights items False \<le> allowedWeight"
    using leaf.prems(1) n by (simp add: nodePre_def)
  then have "goodResult items allowedWeight r"
    by (simp add: r goodResult_def solutionOf_def valueOf_def solutionValue_def)
  then show ?case by (simp add: i kept_refl)
next
  case (pruned items allowedWeight nextIndex bestValue currentValue currentWeight
      remainingValue)
  from pruned.prems(2) have "r = (None, 0, 1)" "items' = items"
    by (auto simp: doRodsTechnique_pruned[OF pruned.hyps])
  then show ?case by (simp add: kept_refl)
next
  case (node items allowedWeight nextIndex bestValue currentValue currentWeight
      remainingValue)
  note lt = node.hyps(1) and np = node.hyps(2) and pre = node.prems(1)
  note eq = node.prems(2)[unfolded doRodsTechnique_unfold[OF lt np]]
  from eq obtain test1 items1 where
    inc: "rodsInclude items allowedWeight nextIndex bestValue currentValue currentWeight
      remainingValue = Inr (test1, items1)"
    by (auto split: sum.splits)
  from eq inc obtain test2 itemsU where
    exc: "rodsExclude items1 allowedWeight nextIndex (max bestValue (valueOf test1))
      currentValue currentWeight remainingValue = Inr (test2, itemsU)"
    and r: "r = pick test1 test2" and i: "items' = itemsU"
    by (auto split: sum.splits)
  have first: "kept items nextIndex items1 \<and> goodResult items allowedWeight test1"
  proof (cases "currentWeight + weight (items ! nextIndex) \<le> allowedWeight \<and>
      blockedBy (items ! nextIndex) < 0")
    case True
    have p1: "nodePre (setSelected items nextIndex True) allowedWeight (Suc nextIndex)
       (currentValue + item_value (items ! nextIndex))
       (currentWeight + weight (items ! nextIndex))
       (remainingValue - item_value (items ! nextIndex))"
      using pre lt True by (simp add: nodePre_include)
    from node.IH(1)[OF True p1 inc[unfolded rodsInclude_go[OF lt True]]]
    have "kept (setSelected items nextIndex True) (Suc nextIndex) items1"
      and "goodResult (setSelected items nextIndex True) allowedWeight test1" by simp_all
    then show ?thesis
      using kept_setSelected goodResult_cong[of "setSelected items nextIndex True" items]
      by auto
  next
    case False
    from inc[unfolded rodsInclude_skip[OF False]] show ?thesis by (auto simp: kept_refl)
  qed
  from exc obtain itemsB where b: "blockItems (items1 ! nextIndex) items1 = Inr itemsB"
    by (auto simp: rodsExclude_def split: sum.splits)
  let ?itemsF = "setSelected itemsB nextIndex False"
  from exc b obtain items2 where
    s: "doRodsTechnique ?itemsF allowedWeight (Suc nextIndex) (max bestValue (valueOf test1))
          currentValue currentWeight (remainingValue - item_value (?itemsF ! nextIndex))
        = Inr (test2, items2)"
    and u: "unblockItems (items2 ! nextIndex) items2 = Inr itemsU"
    by (auto simp: rodsExclude_def Let_def split: sum.splits)
  have kB: "kept items nextIndex itemsB"
    using first b by (auto simp: blockItems_def intro: kept_block)
  have lB: "length itemsB = length items" using kB by (simp add: kept_def)
  have pB: "nodePre itemsB allowedWeight nextIndex currentValue currentWeight remainingValue"
    using pre kB by (rule nodePre_kept)
  have pF: "nodePre ?itemsF allowedWeight (Suc nextIndex) currentValue currentWeight
      (remainingValue - item_value (?itemsF ! nextIndex))"
    using nodePre_exclude[OF pB _ refl refl refl] lt lB by simp
  from node.IH(2)[OF inc b pF s[unfolded Suc_eq_plus1[symmetric]]]
  have k2: "kept ?itemsF (Suc nextIndex) items2" and g2: "goodResult ?itemsF allowedWeight test2"
    by simp_all
  have k2': "kept itemsB nextIndex items2" using k2 by (rule kept_setSelected)
  have kU: "kept items2 nextIndex itemsU"
    using kept_unblock[OF kept_refl u[unfolded unblockItems_def]] .
  have "kept items nextIndex itemsU" using kB k2' kU by (blast intro: kept_trans)
  moreover have "goodResult items allowedWeight test2"
    using g2 kB goodResult_cong[of ?itemsF items] by (simp add: kept_def)
  ultimately show ?case using first by (simp add: r i goodResult_pick)
qed

lemma nodePre_start:
  assumes "nonneg (pairs items)" "0 \<le> allowedWeight"
  shows "nodePre items allowedWeight 0 0 0 (sumValues items True)"
  using assms by (simp add: nodePre_def sumValues_True)

lemma rodsTechnique_sound:
  assumes "nonneg (pairs items)" "0 \<le> allowedWeight"
    and "rodsTechnique items allowedWeight = Inr (r, items')"
  shows "goodResult items allowedWeight r"
proof -
  let ?items1 = "makeBlockLists items"
  have "nodePre ?items1 allowedWeight 0 0 0 (sumValues ?items1 True)"
    using assms(1,2) by (simp add: nodePre_start)
  moreover have "doRodsTechnique ?items1 allowedWeight 0 0 0 0 (sumValues ?items1 True)
      = Inr (r, items')"
    using assms(3) by (simp add: rodsTechnique_def Let_def)
  ultimately have "goodResult ?items1 allowedWeight r"
    using doRodsTechnique_sound by blast
  then show ?thesis using goodResult_cong[of ?items1 items] by simp
qed

lemma rodsTechniqueSorted_sound:
  assumes perm: "mset (sortSlice (\<lambda>a b. length (blockList a) > length (blockList b))
             (makeBlockLists items)) = mset (makeBlockLists items)"
    and "nonneg (pairs items)" "0 \<le> allowedWeight"
    and "rodsTechniqueSorted sortSlice items allowedWeight = Inr (r, items')"
  shows "\<exists>sorted. mset (pairs sorted) = mset (pairs items) \<and>
      goodResult sorted allowedWeight r"
proof -
  let ?items1 = "makeBlockLists items"
  let ?items2 = "sortSlice (\<lambda>a b. length (blockList a) > length (blockList b)) ?items1"
  let ?items3 = "resetIds ?items2"
  let ?items4 = "makeBlockLists ?items3"
  have "mset (pairs ?items2) = mset (pairs ?items1)"
    unfolding pairs_def using perm by (metis mset_map)
  then have p4: "mset (pairs ?items4) = mset (pairs items)" by simp
  then have "set (pairs ?items4) = set (pairs items)" by (rule mset_eq_setD)
  with assms(2) have n4: "nonneg (pairs ?items4)" by (simp add: nonneg_def)
  have "nodePre ?items4 allowedWeight 0 0 0 (sumValues ?items4 True)"
    using n4 assms(3) by (rule nodePre_start)
  moreover have "doRodsTechnique ?items4 allowedWeight 0 0 0 0 (sumValues ?items4 True)
      = Inr (r, items')"
    using assms(4) by (simp add: rodsTechniqueSorted_def Let_def)
  ultimately have "goodResult ?items4 allowedWeight r"
    using doRodsTechnique_sound by blast
  with p4 show ?thesis by blast
qed

lemma staticSame_refl: "staticSame items items"
  by (simp add: staticSame_def sameStatic_def)

lemma staticSame_trans: "staticSame a b \<Longrightarrow> staticSame b c \<Longrightarrow> staticSame a c"
  by (simp add: staticSame_def sameStatic_def)

lemma staticSame_setSelected: "staticSame items (setSelected items i b)"
  by (simp add: staticSame_def sameStatic_def nth_setSelected)

lemma staticSame_rodsWf:
  assumes "staticSame items items'" "rodsWf items"
  shows "rodsWf items'"
  using rodsWf_cong[of items' items] assms by (simp add: staticSame_def)

lemma staticSame_block:
  assumes "rodsWf items" "i < length items" "blockItems (items ! i) items = Inr itemsB"
  shows "staticSame items itemsB"
  using blockItems_ok[OF assms(1,2)] assms(3)
  by (auto simp: staticSame_def sameStatic_def)

lemma staticSame_unblock:
  assumes "rodsWf items" "i < length items" "unblockItems (items ! i) items = Inr itemsU"
  shows "staticSame items itemsU"
  using unblockItems_ok[OF assms(1,2)] assms(3)
  by (auto simp: staticSame_def sameStatic_def)

lemma doRodsTechnique_returns:
  "rodsWf items \<Longrightarrow>
   \<exists>r items'. doRodsTechnique items allowedWeight nextIndex bestValue currentValue
       currentWeight remainingValue = Inr (r, items') \<and> staticSame items items'"
proof (induction items allowedWeight nextIndex bestValue currentValue currentWeight
    remainingValue rule: doRodsTechnique_cases)
  case (leaf items allowedWeight nextIndex bestValue currentValue currentWeight remainingValue)
  then show ?case by (simp add: doRodsTechnique_leaf staticSame_refl)
next
  case (pruned items allowedWeight nextIndex bestValue currentValue currentWeight
      remainingValue)
  then show ?case by (simp add: doRodsTechnique_pruned staticSame_refl)
next
  case (node items allowedWeight nextIndex bestValue currentValue currentWeight
      remainingValue)
  note lt = node.hyps(1) and np = node.hyps(2) and wf = node.prems
  have "\<exists>test1 items1. rodsInclude items allowedWeight nextIndex bestValue currentValue
      currentWeight remainingValue = Inr (test1, items1) \<and> staticSame items items1"
  proof (cases "currentWeight + weight (items ! nextIndex) \<le> allowedWeight \<and>
      blockedBy (items ! nextIndex) < 0")
    case True
    have "rodsWf (setSelected items nextIndex True)"
      using staticSame_rodsWf[OF staticSame_setSelected wf] .
    from node.IH(1)[OF True this] obtain test1 items1 where
      "doRodsTechnique (setSelected items nextIndex True) allowedWeight (Suc nextIndex)
         bestValue (currentValue + item_value (items ! nextIndex))
         (currentWeight + weight (items ! nextIndex))
         (remainingValue - item_value (items ! nextIndex)) = Inr (test1, items1)"
      "staticSame (setSelected items nextIndex True) items1" by blast
    then show ?thesis
      using staticSame_trans[OF staticSame_setSelected] rodsInclude_go[OF lt True]
      by metis
  next
    case False
    show ?thesis using rodsInclude_skip[OF False] staticSame_refl by blast
  qed
  then obtain test1 items1 where
    inc: "rodsInclude items allowedWeight nextIndex bestValue currentValue currentWeight
      remainingValue = Inr (test1, items1)" and s1: "staticSame items items1" by blast
  have wf1: "rodsWf items1" using s1 wf by (rule staticSame_rodsWf)
  have l1: "length items1 = length items" using s1 by (simp add: staticSame_def)
  have lt1: "nextIndex < length items1" using lt l1 by simp
  obtain itemsB where b: "blockItems (items1 ! nextIndex) items1 = Inr itemsB"
    using blockItems_ok[OF wf1 lt1] by blast
  have sB: "staticSame items1 itemsB" using wf1 lt1 b by (rule staticSame_block)
  let ?itemsF = "setSelected itemsB nextIndex False"
  have sF: "staticSame items1 ?itemsF"
    using staticSame_trans[OF sB staticSame_setSelected] .
  have wfF: "rodsWf ?itemsF" using sF wf1 by (rule staticSame_rodsWf)
  from node.IH(2)[OF inc b wfF] obtain test2 items2 where
    s: "doRodsTechnique ?itemsF allowedWeight (Suc nextIndex) (max bestValue (valueOf test1))
          currentValue currentWeight (remainingValue - item_value (?itemsF ! nextIndex))
        = Inr (test2, items2)"
    and s2: "staticSame ?itemsF items2" by blast
  have wf2: "rodsWf items2" using s2 wfF by (rule staticSame_rodsWf)
  have lt2: "nextIndex < length items2" using lt1 sF s2 by (simp add: staticSame_def)
  obtain itemsU where u: "unblockItems (items2 ! nextIndex) items2 = Inr itemsU"
    using unblockItems_ok[OF wf2 lt2] by blast
  have sU: "staticSame items2 itemsU" using wf2 lt2 u by (rule staticSame_unblock)
  have "staticSame items itemsU"
    using s1 sF s2 sU by (blast intro: staticSame_trans)
  then show ?case
    using doRodsTechnique_node[OF lt np inc b s u] by blast
qed

lemma rodsTechnique_returns:
  assumes "freshIds items"
  shows "\<exists>r items'. rodsTechnique items allowedWeight = Inr (r, items')"
  using doRodsTechnique_returns[OF rodsWf_makeBlockLists[OF assms], of allowedWeight 0 0 0 0
      "sumValues (makeBlockLists items) True"]
  by (auto simp: rodsTechnique_def Let_def)

lemma rodsTechniqueSorted_returns:
  "\<exists>r items'. rodsTechniqueSorted sortSlice items allowedWeight = Inr (r, items')"
proof -
  let ?items3 = "resetIds (sortSlice (\<lambda>a b. length (blockList a) > length (blockList b))
      (makeBlockLists items))"
  have "freshIds ?items3" by (simp add: freshIds_def nth_resetIds)
  then have "rodsWf (makeBlockLists ?items3)" by (rule rodsWf_makeBlockLists)
  from doRodsTechnique_returns[OF this, of allowedWeight 0 0 0 0
      "sumValues (makeBlockLists ?items3) True"]
  show ?thesis by (auto simp: rodsTechniqueSorted_def Let_def)
qed

subsection \<open>The store and the contents of the slice\<close>

lemma reconstructS_contents:
  "a < length st \<Longrightarrow>
   reconstructS prevWeight st (Some a) k w =
     (case reconstruct prevWeight (st ! a) k w of
        Inl e \<Rightarrow> Inl e
      | Inr its \<Rightarrow> Inr (st[a := its]))"
proof (induction k arbitrary: st w)
  case 0
  show ?case by simp
next
  case (Suc k)
  have l: "a < length (storeSelected st (Some a) k True)"
    using Suc.prems by (simp add: storeSelected_def)
  have n: "storeSelected st (Some a) k True ! a = setSelected (st ! a) k True"
    using Suc.prems by (simp add: storeSelected_def)
  have u: "(storeSelected st (Some a) k True)[a := its] = st[a := its]" for its
    by (simp add: storeSelected_def)
  show ?case
    using Suc.IH[OF Suc.prems] Suc.IH[OF l]
    by (simp add: n u split: sum.splits)
qed

lemma dynamicProgrammingS_contents:
  assumes "a < length st"
  shows "dynamicProgrammingS st (Some a) allowedWeight =
     (case dynamicProgramming (st ! a) allowedWeight of
        Inl e \<Rightarrow> Inl e
      | Inr (r, items') \<Rightarrow> Inr ((Some a, valueOf r, callsOf r), st[a := items']))"
proof (cases "st ! a")
  case Nil
  then show ?thesis
    by (simp add: dynamicProgrammingS_def dynamicProgramming_def sliceContents_def)
next
  case (Cons item0 rest)
  have r: "reconstructS prevWeight st (Some a) (Suc (length rest)) w =
     (case reconstruct prevWeight (item0 # rest) (Suc (length rest)) w of
        Inl e \<Rightarrow> Inl e
      | Inr its \<Rightarrow> Inr (st[a := its]))" for prevWeight w
    using reconstructS_contents[OF assms, of prevWeight "Suc (length rest)" w]
    by (simp only: Cons)
  show ?thesis
    by (simp add: dynamicProgrammingS_def dynamicProgramming_def sliceContents_def Cons
        Let_def r valueOf_def callsOf_def
        del: reconstructS.simps reconstruct.simps split: sum.splits)
qed

lemma copyItemsS_fresh:
  assumes "a < length st"
  shows "fst (copyItemsS st (Some a)) \<noteq> Some a \<and>
     length (snd (copyItemsS st (Some a))) = Suc (length st) \<and>
     sliceContents (snd (copyItemsS st (Some a))) (fst (copyItemsS st (Some a))) = st ! a"
  using assms by (simp add: copyItemsS_def sliceContents_def)

lemma staleDominated_facts:
  "staleDominated \<noteq> []" "positive staleDominated" "freshIds staleDominated"
  by (simp_all add: staleDominated_def mkItem_def positive_def freshIds_def nth_Cons')

section \<open>Claim C6: the call count of exhaustive search\<close>



section \<open>Claim C5: ties in exhaustive search\<close>

text \<open>
  Claim C5, as the code has it.  The comparison in \<open>doExhaustiveSearch\<close> is the strict
  \<open>withValue > withoutValue\<close>, so at every recursion level where the include branch's returned
  score equals the exclude branch's returned score, the assignment returned is the one of the
  exclude branch: ties favor the exclude branch.
\<close>

theorem exhaustiveSearch_ties_favor_exclude:
  assumes "nextIndex < length items"
    and "doExhaustiveSearch (setSelected items nextIndex True) allowedWeight (Suc nextIndex)
           = (withRes, items2)"
    and "doExhaustiveSearch (setSelected items2 nextIndex False) allowedWeight (Suc nextIndex)
           = (withoutRes, items4)"
    and "valueOf withRes = valueOf withoutRes"
  shows "solutionOf (fst (doExhaustiveSearch items allowedWeight nextIndex))
           = solutionOf withoutRes"
  using doExhaustiveSearch_node[OF assms(1,2,3)] assms(4)
  by (simp add: solutionOf_def)

text \<open>
  Two equal items of value 1 and weight 1 at capacity 1: at the root both branches score 1, the
  include branch returns the assignment selecting item 0, the exclude branch the one selecting
  item 1, and the root returns the latter.
\<close>

theorem exhaustiveSearch_tie_counterexample:
  "doExhaustiveSearch (setSelected twins 0 True) 1 (Suc 0) =
     ((Some [(mkItem 0 1 1)\<lparr>isSelected := True\<rparr>, mkItem 1 1 1], 1, 3),
      [(mkItem 0 1 1)\<lparr>isSelected := True\<rparr>, mkItem 1 1 1]) \<and>
   doExhaustiveSearch
       (setSelected [(mkItem 0 1 1)\<lparr>isSelected := True\<rparr>, mkItem 1 1 1] 0 False) 1 (Suc 0) =
     ((Some [mkItem 0 1 1, (mkItem 1 1 1)\<lparr>isSelected := True\<rparr>], 1, 3),
      [mkItem 0 1 1, mkItem 1 1 1]) \<and>
   fst (doExhaustiveSearch twins 1 0) =
     (Some [mkItem 0 1 1, (mkItem 1 1 1)\<lparr>isSelected := True\<rparr>], 1, 7) \<and>
   [(mkItem 0 1 1)\<lparr>isSelected := True\<rparr>, mkItem 1 1 1]
     \<noteq> [mkItem 0 1 1, (mkItem 1 1 1)\<lparr>isSelected := True\<rparr>]"
  by code_simp

text \<open>The same root node, through the theorem.\<close>

theorem exhaustiveSearch_ties_favor_exclude_witness:
  "solutionOf (fst (doExhaustiveSearch twins 1 0))
     = Some [mkItem 0 1 1, (mkItem 1 1 1)\<lparr>isSelected := True\<rparr>]"
proof -
  have a: "0 < length twins" by (simp add: twins_def)
  have b: "doExhaustiveSearch (setSelected twins 0 True) 1 (Suc 0) =
     ((Some [(mkItem 0 1 1)\<lparr>isSelected := True\<rparr>, mkItem 1 1 1], 1, 3),
      [(mkItem 0 1 1)\<lparr>isSelected := True\<rparr>, mkItem 1 1 1])"
    by code_simp
  have c: "doExhaustiveSearch
       (setSelected [(mkItem 0 1 1)\<lparr>isSelected := True\<rparr>, mkItem 1 1 1] 0 False) 1 (Suc 0) =
     ((Some [mkItem 0 1 1, (mkItem 1 1 1)\<lparr>isSelected := True\<rparr>], 1, 3),
      [mkItem 0 1 1, mkItem 1 1 1])"
    by code_simp
  show ?thesis
    using exhaustiveSearch_ties_favor_exclude[OF a b c] by (simp add: valueOf_def solutionOf_def)
qed

section \<open>Claim C4: malformed input\<close>



text \<open>A single item of value \<open>- 1\<close> is selected by the table-based solver, with value \<open>- 1\<close>.\<close>

lemma negative_value_accepted:
  "dynamicProgramming [mkItem 0 (- 1) 1] 1 =
     Inr ((Some [(mkItem 0 (- 1) 1)\<lparr>isSelected := True\<rparr>], - 1, 1),
          [(mkItem 0 (- 1) 1)\<lparr>isSelected := True\<rparr>])"
  by code_simp

section \<open>Claim C9: monotonicity in the capacity\<close>

text \<open>
  Claim C9. For every non-empty item collection with strictly positive values and weights and
  every pair of capacities \<open>0 \<le> c1 \<le> c2\<close>, \<open>dynamicProgramming\<close> returns normally at both
  capacities and the value returned at \<open>c2\<close> is at least the value returned at \<open>c1\<close>; the same
  holds for the values returned by \<open>exhaustiveSearch\<close> and by \<open>branchAndBound\<close>.
\<close>

theorem value_monotone_in_capacity:
  assumes "items \<noteq> []" "positive items" "0 \<le> c1" "c1 \<le> c2"
  shows "\<exists>sel1 v1 sel2 v2.
      dynamicProgramming items c1 = Inr ((Some sel1, v1, 1), sel1) \<and>
      dynamicProgramming items c2 = Inr ((Some sel2, v2, 1), sel2) \<and> v1 \<le> v2 \<and>
      valueOf (fst (exhaustiveSearch items c1)) \<le> valueOf (fst (exhaustiveSearch items c2)) \<and>
      valueOf (fst (branchAndBound items c1)) \<le> valueOf (fst (branchAndBound items c2))"
proof -
  have nn: "nonneg (pairs items)" using assms(2) by (rule positive_nonneg)
  have c2: "0 \<le> c2" using assms(3,4) by simp
  have m: "knap (pairs items) c1 \<le> knap (pairs items) c2" using assms(4) by (rule knap_mono)
  obtain s1 where s1: "dynamicProgramming items c1 = Inr ((Some s1, knap (pairs items) c1, 1), s1)"
    using dynamicProgramming_ok[OF assms(1,2,3)] by blast
  obtain s2 where s2: "dynamicProgramming items c2 = Inr ((Some s2, knap (pairs items) c2, 1), s2)"
    using dynamicProgramming_ok[OF assms(1,2) c2] by blast
  have e: "valueOf (fst (exhaustiveSearch items c1)) \<le> valueOf (fst (exhaustiveSearch items c2))"
    using m by (simp add: exhaustiveSearch_value[OF nn assms(3)] exhaustiveSearch_value[OF nn c2])
  have b: "valueOf (fst (branchAndBound items c1)) \<le> valueOf (fst (branchAndBound items c2))"
    using m by (simp add: branchAndBound_value(1)[OF nn assms(3)] branchAndBound_value(1)[OF nn c2])
  show ?thesis using s1 s2 m e b by blast
qed

text \<open>The scenario at capacities 9 and 14.\<close>

theorem value_monotone_in_capacity_witness:
  "\<exists>sel1 v1 sel2 v2.
      dynamicProgramming scenario 9 = Inr ((Some sel1, v1, 1), sel1) \<and>
      dynamicProgramming scenario 14 = Inr ((Some sel2, v2, 1), sel2) \<and> v1 \<le> v2 \<and>
      valueOf (fst (exhaustiveSearch scenario 9)) \<le> valueOf (fst (exhaustiveSearch scenario 14)) \<and>
      valueOf (fst (branchAndBound scenario 9)) \<le> valueOf (fst (branchAndBound scenario 14))"
  using value_monotone_in_capacity[of scenario 9 14] scenario_facts by simp

section \<open>Claim C1: the four solvers return the optimal value\<close>

text \<open>
  Claim C1, as the code has it.  For every non-empty item collection with strictly positive
  values and weights and every capacity \<open>\<ge> 0\<close>, \<open>exhaustiveSearch\<close>, \<open>branchAndBound\<close> and
  \<open>dynamicProgramming\<close> return the same value, the optimal 0/1 knapsack value of the input.
  \<open>rodsTechnique\<close> returns that value as well when every \<open>blockedBy\<close> field is \<open>- 1\<close> on entry and
  the ids are the indices, and \<open>rodsTechniqueSorted\<close> when every \<open>blockedBy\<close> field is \<open>- 1\<close> on
  entry (and \<open>sort.Slice\<close> permutes the slice): the way \<open>makeItems\<close> builds the items.  Nothing
  in the two entry points resets \<open>blockedBy\<close>.
\<close>

theorem solvers_return_optimal_value:
  assumes "items \<noteq> []" "positive items" "0 \<le> allowedWeight"
  shows "\<exists>v. optimalValue items allowedWeight v \<and>
     valueOf (fst (exhaustiveSearch items allowedWeight)) = v \<and>
     valueOf (fst (branchAndBound items allowedWeight)) = v \<and>
     (\<exists>sel. dynamicProgramming items allowedWeight = Inr ((Some sel, v, 1), sel)) \<and>
     (freshIds items \<and> unblocked items \<longrightarrow>
        (\<exists>r items'. rodsTechnique items allowedWeight = Inr (r, items') \<and> valueOf r = v)) \<and>
     (unblocked items \<and>
      mset (sortSlice (\<lambda>a b. length (blockList a) > length (blockList b)) (makeBlockLists items))
        = mset (makeBlockLists items) \<longrightarrow>
        (\<exists>r items'. rodsTechniqueSorted sortSlice items allowedWeight = Inr (r, items') \<and>
           valueOf r = v))"
proof -
  let ?v = "knap (pairs items) allowedWeight"
  have nn: "nonneg (pairs items)" using assms(2) by (rule positive_nonneg)
  have opt: "optimalValue items allowedWeight ?v" using nn assms(3) by (rule knap_optimal)
  have es: "valueOf (fst (exhaustiveSearch items allowedWeight)) = ?v"
    using nn assms(3) by (rule exhaustiveSearch_value)
  have bb: "valueOf (fst (branchAndBound items allowedWeight)) = ?v"
    using nn assms(3) by (rule branchAndBound_value(1))
  have dp: "\<exists>sel. dynamicProgramming items allowedWeight = Inr ((Some sel, ?v, 1), sel)"
    using dynamicProgramming_ok[OF assms] by blast
  have rods: "freshIds items \<and> unblocked items \<longrightarrow>
        (\<exists>r items'. rodsTechnique items allowedWeight = Inr (r, items') \<and> valueOf r = ?v)"
    using rodsTechnique_ok[OF _ _ nn assms(3)] by blast
  have sorted: "unblocked items \<and>
      mset (sortSlice (\<lambda>a b. length (blockList a) > length (blockList b)) (makeBlockLists items))
        = mset (makeBlockLists items) \<longrightarrow>
        (\<exists>r items'. rodsTechniqueSorted sortSlice items allowedWeight = Inr (r, items') \<and>
           valueOf r = ?v)"
  proof
    assume a: "unblocked items \<and>
      mset (sortSlice (\<lambda>a b. length (blockList a) > length (blockList b)) (makeBlockLists items))
        = mset (makeBlockLists items)"
    show "\<exists>r items'. rodsTechniqueSorted sortSlice items allowedWeight = Inr (r, items') \<and>
           valueOf r = ?v"
      using rodsTechniqueSorted_ok[of sortSlice items allowedWeight, OF conjunct2[OF a] conjunct1[OF a] nn assms(3)] by blast
  qed
  show ?thesis using opt es bb dp rods sorted by blast
qed

text \<open>
  A single item of value 1 and weight 1 whose \<open>blockedBy\<close> field is 0 on entry, at capacity 1:
  the optimal value is 1, which exhaustive search and branch and bound return, while both
  variants of Rod's technique skip the item and return the value 0.
\<close>

theorem stale_blockedBy_counterexample:
  "staleItems \<noteq> [] \<and> positive staleItems \<and>
   valueOf (fst (exhaustiveSearch staleItems 1)) = 1 \<and>
   valueOf (fst (branchAndBound staleItems 1)) = 1 \<and>
   rodsTechnique staleItems 1 = Inr ((None, 0, 3), staleItems) \<and>
   rodsTechniqueSorted insertionSort staleItems 1 = Inr ((None, 0, 3), staleItems)"
  by code_simp

text \<open>The scenario of five items at capacity 14: every solver returns 26.\<close>

theorem solvers_return_optimal_value_witness:
  "optimalValue scenario 14 26 \<and>
   valueOf (fst (exhaustiveSearch scenario 14)) = 26 \<and>
   valueOf (fst (branchAndBound scenario 14)) = 26 \<and>
   (\<exists>sel. dynamicProgramming scenario 14 = Inr ((Some sel, 26, 1), sel)) \<and>
   (\<exists>r items'. rodsTechnique scenario 14 = Inr (r, items') \<and> valueOf r = 26) \<and>
   (\<exists>r items'. rodsTechniqueSorted insertionSort scenario 14 = Inr (r, items') \<and>
      valueOf r = 26)"
proof -
  have e: "valueOf (fst (exhaustiveSearch scenario 14)) = 26" by code_simp
  show ?thesis
    using solvers_return_optimal_value[of scenario 14 insertionSort] scenario_facts e
    by (simp add: mset_insertionSort)
qed

section \<open>Claim C2: the returned selection fits the capacity\<close>

text \<open>
  Claim C2, as the code has it.  For every non-empty item collection with strictly positive
  values and weights and every capacity \<open>\<ge> 0\<close>, whatever the \<open>blockedBy\<close> fields on entry, the
  selected weight of the selection returned by \<open>exhaustiveSearch\<close>, by \<open>branchAndBound\<close>, by
  \<open>rodsTechnique\<close> and by \<open>rodsTechniqueSorted\<close> is at most the capacity (a nil selection has
  no items).  \<open>rodsTechnique\<close> returns a selection whenever it does not panic, which is the
  case when the ids are the indices; \<open>rodsTechniqueSorted\<close> always returns one, and
  \<open>sort.Slice\<close> is taken to permute the slice.  The selection returned by
  \<open>dynamicProgramming\<close> has a selected weight of at most the capacity when no item is selected
  on entry.
\<close>

theorem selection_within_capacity:
  assumes "items \<noteq> []" "positive items" "0 \<le> allowedWeight"
  shows
    "sumWeights (sliceItems (solutionOf (fst (exhaustiveSearch items allowedWeight)))) False
       \<le> allowedWeight \<and>
     sumWeights (sliceItems (solutionOf (fst (branchAndBound items allowedWeight)))) False
       \<le> allowedWeight \<and>
     (\<forall>r items'. rodsTechnique items allowedWeight = Inr (r, items') \<longrightarrow>
        sumWeights (sliceItems (solutionOf r)) False \<le> allowedWeight) \<and>
     (freshIds items \<longrightarrow>
        (\<exists>r items'. rodsTechnique items allowedWeight = Inr (r, items') \<and>
           sumWeights (sliceItems (solutionOf r)) False \<le> allowedWeight)) \<and>
     (mset (sortSlice (\<lambda>a b. length (blockList a) > length (blockList b)) (makeBlockLists items))
        = mset (makeBlockLists items) \<longrightarrow>
        (\<exists>r items'. rodsTechniqueSorted sortSlice items allowedWeight = Inr (r, items') \<and>
           sumWeights (sliceItems (solutionOf r)) False \<le> allowedWeight)) \<and>
     (unselected items \<longrightarrow>
        (\<exists>sel v. dynamicProgramming items allowedWeight = Inr ((Some sel, v, 1), sel) \<and>
           sumWeights sel False \<le> allowedWeight))"
proof -
  have nn: "nonneg (pairs items)" using assms(2) by (rule positive_nonneg)
  have es: "sumWeights (sliceItems (solutionOf (fst (exhaustiveSearch items allowedWeight))))
      False \<le> allowedWeight"
    using exhaustiveSearch_selection[OF nn assms(3)] by (auto simp: sliceItems_def)
  have bb: "sumWeights (sliceItems (solutionOf (fst (branchAndBound items allowedWeight))))
      False \<le> allowedWeight"
    using goodResult_slice[OF branchAndBound_value(2)[OF nn assms(3)] assms(3)] by simp
  have rods: "\<forall>r items'. rodsTechnique items allowedWeight = Inr (r, items') \<longrightarrow>
      sumWeights (sliceItems (solutionOf r)) False \<le> allowedWeight"
    using goodResult_slice[OF rodsTechnique_sound[OF nn assms(3)] assms(3)] by blast
  have rodsR: "freshIds items \<longrightarrow>
      (\<exists>r items'. rodsTechnique items allowedWeight = Inr (r, items') \<and>
         sumWeights (sliceItems (solutionOf r)) False \<le> allowedWeight)"
    using rods rodsTechnique_returns[of items allowedWeight] by blast
  have sorted: "mset (sortSlice (\<lambda>a b. length (blockList a) > length (blockList b)) (makeBlockLists items))
       = mset (makeBlockLists items) \<longrightarrow>
     (\<exists>r items'. rodsTechniqueSorted sortSlice items allowedWeight = Inr (r, items') \<and>
        sumWeights (sliceItems (solutionOf r)) False \<le> allowedWeight)"
  proof
    assume perm: "mset (sortSlice (\<lambda>a b. length (blockList a) > length (blockList b)) (makeBlockLists items))
       = mset (makeBlockLists items)"
    obtain r items' where
      ret: "rodsTechniqueSorted sortSlice items allowedWeight = Inr (r, items')"
      using rodsTechniqueSorted_returns[of sortSlice items allowedWeight] by blast
    obtain sorted where g: "goodResult sorted allowedWeight r"
      using rodsTechniqueSorted_sound[of sortSlice items allowedWeight r items',
          OF perm nn assms(3) ret] by blast
    show "\<exists>r items'. rodsTechniqueSorted sortSlice items allowedWeight = Inr (r, items') \<and>
        sumWeights (sliceItems (solutionOf r)) False \<le> allowedWeight"
      using ret goodResult_slice[OF g assms(3)] by blast
  qed
  have dp: "unselected items \<longrightarrow>
        (\<exists>sel v. dynamicProgramming items allowedWeight = Inr ((Some sel, v, 1), sel) \<and>
           sumWeights sel False \<le> allowedWeight)"
  proof
    assume a: "unselected items"
    show "\<exists>sel v. dynamicProgramming items allowedWeight = Inr ((Some sel, v, 1), sel) \<and>
           sumWeights sel False \<le> allowedWeight"
      using dynamicProgramming_ok[OF assms] unselected_nth[OF a] by blast
  qed
  show ?thesis using es bb rods rodsR sorted dp by (intro conjI)
qed

text \<open>
  A single item of value 1 and weight 5 that is selected on entry, at capacity 0:
  \<open>dynamicProgramming\<close> never clears \<open>isSelected\<close>, so the selection it returns has the
  selected weight 5.
\<close>

theorem preselected_weight_counterexample:
  "heavySelected \<noteq> [] \<and> positive heavySelected \<and>
   dynamicProgramming heavySelected 0 = Inr ((Some heavySelected, 0, 1), heavySelected) \<and>
   sumWeights heavySelected False = 5"
  by code_simp

text \<open>
  The scenario of five items at capacity 14, where no item starts selected, for the five
  solvers; and the two items of which item 1 enters with the \<open>blockedBy\<close> field 0, for the
  two variants of Rod's technique.
\<close>

theorem selection_within_capacity_witness:
  "sumWeights (sliceItems (solutionOf (fst (exhaustiveSearch scenario 14)))) False \<le> 14 \<and>
   sumWeights (sliceItems (solutionOf (fst (branchAndBound scenario 14)))) False \<le> 14 \<and>
   (\<exists>r items'. rodsTechnique scenario 14 = Inr (r, items') \<and>
      sumWeights (sliceItems (solutionOf r)) False \<le> 14) \<and>
   (\<exists>r items'. rodsTechniqueSorted insertionSort scenario 14 = Inr (r, items') \<and>
      sumWeights (sliceItems (solutionOf r)) False \<le> 14) \<and>
   (\<exists>sel v. dynamicProgramming scenario 14 = Inr ((Some sel, v, 1), sel) \<and>
      sumWeights sel False \<le> 14) \<and>
   (\<exists>r items'. rodsTechnique staleDominated 14 = Inr (r, items') \<and>
      sumWeights (sliceItems (solutionOf r)) False \<le> 14) \<and>
   (\<exists>r items'. rodsTechniqueSorted insertionSort staleDominated 14 = Inr (r, items') \<and>
      sumWeights (sliceItems (solutionOf r)) False \<le> 14)"
proof -
  have p: "mset (insertionSort (\<lambda>a b. length (blockList a) > length (blockList b)) (makeBlockLists xs)) = mset (makeBlockLists xs)" for xs
    by (rule mset_insertionSort)
  have a: "sumWeights (sliceItems (solutionOf (fst (exhaustiveSearch scenario 14)))) False
       \<le> 14 \<and>
   sumWeights (sliceItems (solutionOf (fst (branchAndBound scenario 14)))) False \<le> 14 \<and>
   (\<exists>r items'. rodsTechnique scenario 14 = Inr (r, items') \<and>
      sumWeights (sliceItems (solutionOf r)) False \<le> 14) \<and>
   (\<exists>r items'. rodsTechniqueSorted insertionSort scenario 14 = Inr (r, items') \<and>
      sumWeights (sliceItems (solutionOf r)) False \<le> 14) \<and>
   (\<exists>sel v. dynamicProgramming scenario 14 = Inr ((Some sel, v, 1), sel) \<and>
      sumWeights sel False \<le> 14)"
    using selection_within_capacity[of scenario 14 insertionSort] p[of scenario] scenario_facts
    by simp
  have b: "
   (\<exists>r items'. rodsTechnique staleDominated 14 = Inr (r, items') \<and>
      sumWeights (sliceItems (solutionOf r)) False \<le> 14) \<and>
   (\<exists>r items'. rodsTechniqueSorted insertionSort staleDominated 14 = Inr (r, items') \<and>
      sumWeights (sliceItems (solutionOf r)) False \<le> 14)"
    using selection_within_capacity[of staleDominated 14 insertionSort] p[of staleDominated]
      staleDominated_facts
    by simp
  show ?thesis using a b by simp
qed

section \<open>Claim C3: the returned value is the value of the returned selection\<close>

text \<open>
  Claim C3, as the code has it.  For every non-empty item collection with strictly positive
  values and weights and every capacity \<open>\<ge> 0\<close>, whatever the \<open>blockedBy\<close> fields on entry:
  \<open>exhaustiveSearch\<close> returns a selection (never nil) whose selected values add up to the
  returned value; \<open>branchAndBound\<close>, \<open>rodsTechnique\<close> and \<open>rodsTechniqueSorted\<close> return either
  such a selection or a nil selection together with the value 0, so that the selected values of
  what they return, none for nil, add up to the returned value.  \<open>rodsTechnique\<close> returns
  whenever it does not panic, which is the case when the ids are the indices;
  \<open>rodsTechniqueSorted\<close> always returns, and \<open>sort.Slice\<close> is taken to permute the slice.
  \<open>dynamicProgramming\<close> returns a selection whose selected values add up to the returned value
  when no item is selected on entry.
\<close>

theorem selection_value_consistent:
  assumes "items \<noteq> []" "positive items" "0 \<le> allowedWeight"
  shows
    "(\<exists>sel. solutionOf (fst (exhaustiveSearch items allowedWeight)) = Some sel \<and>
        sumValues sel False = valueOf (fst (exhaustiveSearch items allowedWeight))) \<and>
     sumValues (sliceItems (solutionOf (fst (branchAndBound items allowedWeight)))) False
       = valueOf (fst (branchAndBound items allowedWeight)) \<and>
     (solutionOf (fst (branchAndBound items allowedWeight)) = None \<longrightarrow>
        valueOf (fst (branchAndBound items allowedWeight)) = 0) \<and>
     (\<forall>r items'. rodsTechnique items allowedWeight = Inr (r, items') \<longrightarrow>
        sumValues (sliceItems (solutionOf r)) False = valueOf r) \<and>
     (freshIds items \<longrightarrow>
        (\<exists>r items'. rodsTechnique items allowedWeight = Inr (r, items') \<and>
           sumValues (sliceItems (solutionOf r)) False = valueOf r)) \<and>
     (mset (sortSlice (\<lambda>a b. length (blockList a) > length (blockList b)) (makeBlockLists items))
        = mset (makeBlockLists items) \<longrightarrow>
        (\<exists>r items'. rodsTechniqueSorted sortSlice items allowedWeight = Inr (r, items') \<and>
           sumValues (sliceItems (solutionOf r)) False = valueOf r)) \<and>
     (unselected items \<longrightarrow>
        (\<exists>sel v. dynamicProgramming items allowedWeight = Inr ((Some sel, v, 1), sel) \<and>
           sumValues sel False = v))"
proof -
  have nn: "nonneg (pairs items)" using assms(2) by (rule positive_nonneg)
  have es: "\<exists>sel. solutionOf (fst (exhaustiveSearch items allowedWeight)) = Some sel \<and>
        sumValues sel False = valueOf (fst (exhaustiveSearch items allowedWeight))"
    using exhaustiveSearch_selection[OF nn assms(3)] by blast
  have g: "goodResult items allowedWeight (fst (branchAndBound items allowedWeight))"
    using nn assms(3) by (rule branchAndBound_value(2))
  have bb: "sumValues (sliceItems (solutionOf (fst (branchAndBound items allowedWeight)))) False
       = valueOf (fst (branchAndBound items allowedWeight))"
    using goodResult_slice[OF g assms(3)] by simp
  have bn: "solutionOf (fst (branchAndBound items allowedWeight)) = None \<longrightarrow>
        valueOf (fst (branchAndBound items allowedWeight)) = 0"
    using g by (auto simp: goodResult_def)
  have rods: "\<forall>r items'. rodsTechnique items allowedWeight = Inr (r, items') \<longrightarrow>
      sumValues (sliceItems (solutionOf r)) False = valueOf r"
    using goodResult_slice[OF rodsTechnique_sound[OF nn assms(3)] assms(3)] by blast
  have rodsR: "freshIds items \<longrightarrow>
      (\<exists>r items'. rodsTechnique items allowedWeight = Inr (r, items') \<and>
         sumValues (sliceItems (solutionOf r)) False = valueOf r)"
    using rods rodsTechnique_returns[of items allowedWeight] by blast
  have sorted: "mset (sortSlice (\<lambda>a b. length (blockList a) > length (blockList b)) (makeBlockLists items))
       = mset (makeBlockLists items) \<longrightarrow>
     (\<exists>r items'. rodsTechniqueSorted sortSlice items allowedWeight = Inr (r, items') \<and>
        sumValues (sliceItems (solutionOf r)) False = valueOf r)"
  proof
    assume perm: "mset (sortSlice (\<lambda>a b. length (blockList a) > length (blockList b)) (makeBlockLists items))
       = mset (makeBlockLists items)"
    obtain r items' where
      ret: "rodsTechniqueSorted sortSlice items allowedWeight = Inr (r, items')"
      using rodsTechniqueSorted_returns[of sortSlice items allowedWeight] by blast
    obtain sorted where g: "goodResult sorted allowedWeight r"
      using rodsTechniqueSorted_sound[of sortSlice items allowedWeight r items',
          OF perm nn assms(3) ret] by blast
    show "\<exists>r items'. rodsTechniqueSorted sortSlice items allowedWeight = Inr (r, items') \<and>
        sumValues (sliceItems (solutionOf r)) False = valueOf r"
      using ret goodResult_slice[OF g assms(3)] by blast
  qed
  have dp: "unselected items \<longrightarrow>
        (\<exists>sel v. dynamicProgramming items allowedWeight = Inr ((Some sel, v, 1), sel) \<and>
           sumValues sel False = v)"
  proof
    assume a: "unselected items"
    show "\<exists>sel v. dynamicProgramming items allowedWeight = Inr ((Some sel, v, 1), sel) \<and>
           sumValues sel False = v"
      using dynamicProgramming_ok[OF assms] unselected_nth[OF a] by blast
  qed
  show ?thesis using es bb bn rods rodsR sorted dp by (intro conjI)
qed

text \<open>
  A single item of value 1 and weight 5 at capacity 0: branch and bound skips both branches of
  the root and returns the value 0 with a nil selection.  When the item is selected on entry,
  \<open>dynamicProgramming\<close> returns the value 0 with a selection whose selected values add up
  to 1.
\<close>

theorem nil_selection_counterexample:
  "tooHeavy \<noteq> [] \<and> positive tooHeavy \<and>
   branchAndBound tooHeavy 0 = ((None, 0, 3), tooHeavy) \<and>
   heavySelected \<noteq> [] \<and> positive heavySelected \<and>
   dynamicProgramming heavySelected 0 = Inr ((Some heavySelected, 0, 1), heavySelected) \<and>
   sumValues heavySelected False = 1"
  by code_simp

text \<open>
  The scenario of five items at capacity 14, where no item starts selected, for the five
  solvers; and the two items of which item 1 enters with the \<open>blockedBy\<close> field 0, for the
  two variants of Rod's technique.
\<close>

theorem selection_value_consistent_witness:
  "(\<exists>sel. solutionOf (fst (exhaustiveSearch scenario 14)) = Some sel \<and>
      sumValues sel False = valueOf (fst (exhaustiveSearch scenario 14))) \<and>
   sumValues (sliceItems (solutionOf (fst (branchAndBound scenario 14)))) False
     = valueOf (fst (branchAndBound scenario 14)) \<and>
   (\<exists>r items'. rodsTechnique scenario 14 = Inr (r, items') \<and>
      sumValues (sliceItems (solutionOf r)) False = valueOf r) \<and>
   (\<exists>r items'. rodsTechniqueSorted insertionSort scenario 14 = Inr (r, items') \<and>
      sumValues (sliceItems (solutionOf r)) False = valueOf r) \<and>
   (\<exists>sel v. dynamicProgramming scenario 14 = Inr ((Some sel, v, 1), sel) \<and>
      sumValues sel False = v) \<and>
   (\<exists>r items'. rodsTechnique staleDominated 14 = Inr (r, items') \<and>
      sumValues (sliceItems (solutionOf r)) False = valueOf r) \<and>
   (\<exists>r items'. rodsTechniqueSorted insertionSort staleDominated 14 = Inr (r, items') \<and>
      sumValues (sliceItems (solutionOf r)) False = valueOf r)"
proof -
  have p: "mset (insertionSort (\<lambda>a b. length (blockList a) > length (blockList b)) (makeBlockLists xs)) = mset (makeBlockLists xs)" for xs
    by (rule mset_insertionSort)
  have a: "(\<exists>sel. solutionOf (fst (exhaustiveSearch scenario 14)) = Some sel \<and>
      sumValues sel False = valueOf (fst (exhaustiveSearch scenario 14))) \<and>
   sumValues (sliceItems (solutionOf (fst (branchAndBound scenario 14)))) False
     = valueOf (fst (branchAndBound scenario 14)) \<and>
   (\<exists>r items'. rodsTechnique scenario 14 = Inr (r, items') \<and>
      sumValues (sliceItems (solutionOf r)) False = valueOf r) \<and>
   (\<exists>r items'. rodsTechniqueSorted insertionSort scenario 14 = Inr (r, items') \<and>
      sumValues (sliceItems (solutionOf r)) False = valueOf r) \<and>
   (\<exists>sel v. dynamicProgramming scenario 14 = Inr ((Some sel, v, 1), sel) \<and>
      sumValues sel False = v)"
    using selection_value_consistent[of scenario 14 insertionSort] p[of scenario] scenario_facts
    by simp
  have b: "
   (\<exists>r items'. rodsTechnique staleDominated 14 = Inr (r, items') \<and>
      sumValues (sliceItems (solutionOf r)) False = valueOf r) \<and>
   (\<exists>r items'. rodsTechniqueSorted insertionSort staleDominated 14 = Inr (r, items') \<and>
      sumValues (sliceItems (solutionOf r)) False = valueOf r)"
    using selection_value_consistent[of staleDominated 14 insertionSort] p[of staleDominated]
      staleDominated_facts
    by simp
  show ?thesis using a b by simp
qed

section \<open>Claim C7: the order of the step counts\<close>

text \<open>
  Claim C7, as the code has it.  For every item collection and capacity the step count
  returned by \<open>exhaustiveSearch\<close> is at least the step count returned by \<open>branchAndBound\<close> and
  at least the step count returned by \<open>rodsTechnique\<close> (and by \<open>rodsTechniqueSorted\<close>, when
  sorting keeps the length of the slice) whenever that search returns, which it does on items
  numbered by their index whose \<open>blockedBy\<close> fields are \<open>- 1\<close>.  The step count of
  \<open>branchAndBound\<close> is not always at least that of Rod's technique: \<open>doRodsTechnique\<close> has no
  bound check before its exclude branch, it always makes that recursive call.
\<close>

theorem step_count_order:
  "callsOf (fst (branchAndBound items allowedWeight))
     \<le> callsOf (fst (exhaustiveSearch items allowedWeight)) \<and>
   (\<forall>r items'. rodsTechnique items allowedWeight = Inr (r, items') \<longrightarrow>
      callsOf r \<le> callsOf (fst (exhaustiveSearch items allowedWeight))) \<and>
   (\<forall>r items'. rodsTechniqueSorted sortSlice items allowedWeight = Inr (r, items') \<and>
      length (sortSlice (\<lambda>a b. length (blockList a) > length (blockList b))
         (makeBlockLists items)) = length items \<longrightarrow>
      callsOf r \<le> callsOf (fst (exhaustiveSearch items allowedWeight))) \<and>
   (freshIds items \<and> unblocked items \<longrightarrow>
      (\<exists>r items'. rodsTechnique items allowedWeight = Inr (r, items')))"
proof -
  have es: "callsOf (fst (exhaustiveSearch items allowedWeight)) = 2 ^ (length items + 1) - 1"
    using doExhaustiveSearch_calls[of items allowedWeight 0] by (simp add: exhaustiveSearch_def)
  have bb: "callsOf (fst (branchAndBound items allowedWeight)) \<le> 2 ^ (length items + 1) - 1"
    using doBranchAndBound_calls[of items allowedWeight 0 0 0 0 "sumValues items True"]
    by (simp add: branchAndBound_def)
  have rods: "callsOf r \<le> 2 ^ (length items + 1) - 1"
    if "rodsTechnique items allowedWeight = Inr (r, items')" for r items'
    using doRodsTechnique_calls[of "makeBlockLists items" allowedWeight 0 0 0 0
        "sumValues (makeBlockLists items) True" r items'] that
    by (simp add: rodsTechnique_def Let_def)
  have sorted: "callsOf r \<le> 2 ^ (length items + 1) - 1"
    if "rodsTechniqueSorted sortSlice items allowedWeight = Inr (r, items')"
      and "length (sortSlice (\<lambda>a b. length (blockList a) > length (blockList b))
         (makeBlockLists items)) = length items" for r items'
    using doRodsTechnique_calls[of
        "makeBlockLists (resetIds (sortSlice (\<lambda>a b. length (blockList a) > length (blockList b))
           (makeBlockLists items)))" allowedWeight 0 0 0 0 _ r items'] that
    by (simp add: rodsTechniqueSorted_def Let_def)
  have ret: "\<exists>r items'. rodsTechnique items allowedWeight = Inr (r, items')"
    if "freshIds items \<and> unblocked items"
    using doRodsTechnique_frame[OF rodsFI_start[OF conjunct1[OF that] conjunct2[OF that]],
        of allowedWeight 0 0 0 "sumValues (makeBlockLists items) True"]
    by (auto simp: rodsTechnique_def Let_def)
  have bb': "callsOf (fst (branchAndBound items allowedWeight))
     \<le> callsOf (fst (exhaustiveSearch items allowedWeight))"
    using bb by (simp only: es)
  have rods': "\<forall>r items'. rodsTechnique items allowedWeight = Inr (r, items') \<longrightarrow>
      callsOf r \<le> callsOf (fst (exhaustiveSearch items allowedWeight))"
    using rods by (simp only: es) blast
  have sorted': "\<forall>r items'. rodsTechniqueSorted sortSlice items allowedWeight = Inr (r, items') \<and>
      length (sortSlice (\<lambda>a b. length (blockList a) > length (blockList b))
         (makeBlockLists items)) = length items \<longrightarrow>
      callsOf r \<le> callsOf (fst (exhaustiveSearch items allowedWeight))"
    using sorted by (simp only: es) blast
  have ret': "freshIds items \<and> unblocked items \<longrightarrow>
      (\<exists>r items'. rodsTechnique items allowedWeight = Inr (r, items'))"
    using ret by blast
  show ?thesis using bb' rods' sorted' ret' by (intro conjI)
qed

text \<open>
  Two equal items of value 1 and weight 1, built as \<open>makeItems\<close> builds them, at capacity 1:
  branch and bound makes 5 calls, Rod's technique 7.  With the best value 1 known, branch and
  bound skips the exclude branch of the root, whose bound is not above 1, and Rod's technique
  descends into it.
\<close>

theorem step_count_counterexample:
  "twins \<noteq> [] \<and> positive twins \<and>
   callsOf (fst (branchAndBound twins 1)) = 5 \<and>
   rodsTechnique twins 1 =
     Inr ((Some [(mkItem 0 1 1)\<lparr>blockedBy := 1, blockList := [1], isSelected := True\<rparr>,
                 (mkItem 1 1 1)\<lparr>blockList := [0]\<rparr>], 1, 7),
          [(mkItem 0 1 1)\<lparr>blockList := [1]\<rparr>, (mkItem 1 1 1)\<lparr>blockList := [0]\<rparr>])"
  by code_simp

text \<open>The same two items: 5 and 7 calls against the 7 calls of exhaustive search.\<close>

theorem step_count_order_witness:
  "callsOf (fst (branchAndBound twins 1)) \<le> callsOf (fst (exhaustiveSearch twins 1)) \<and>
   (7::int) \<le> callsOf (fst (exhaustiveSearch twins 1)) \<and>
   (7::int) \<le> callsOf (fst (exhaustiveSearch twins 1)) \<and>
   (\<exists>r items'. rodsTechnique twins 1 = Inr (r, items'))"
proof -
  have r: "rodsTechnique twins 1 =
     Inr ((Some [(mkItem 0 1 1)\<lparr>blockedBy := 1, blockList := [1], isSelected := True\<rparr>,
                 (mkItem 1 1 1)\<lparr>blockList := [0]\<rparr>], 1, 7),
          [(mkItem 0 1 1)\<lparr>blockList := [1]\<rparr>, (mkItem 1 1 1)\<lparr>blockList := [0]\<rparr>])"
    by code_simp
  have s: "rodsTechniqueSorted insertionSort twins 1 =
     Inr ((Some [(mkItem 0 1 1)\<lparr>blockedBy := 1, blockList := [1], isSelected := True\<rparr>,
                 (mkItem 1 1 1)\<lparr>blockList := [0]\<rparr>], 1, 7),
          [(mkItem 0 1 1)\<lparr>blockList := [1]\<rparr>, (mkItem 1 1 1)\<lparr>blockList := [0]\<rparr>])"
    by code_simp
  have l: "length (insertionSort (\<lambda>a b. length (blockList a) > length (blockList b))
         (makeBlockLists twins)) = length twins"
    by (simp add: mset_eq_length[OF mset_insertionSort])
  show ?thesis
    using step_count_order[of twins 1 insertionSort] r s l twins_facts
    by (simp add: callsOf_def)
qed

section \<open>Claim C8: the blocking state is restored\<close>

text \<open>
  Claim C8, as the code has it.  Take a node of the dominance-pruned search at which the ids
  are the indices, the block lists are the ones \<open>makeBlockLists\<close> builds, and every \<open>blockedBy\<close>
  field is \<open>- 1\<close> or the index of an earlier item; every node of a search that starts with all
  \<open>blockedBy\<close> fields \<open>- 1\<close> is such a node, and both children of such a node are.  At such a node
  \<open>blockItems\<close> leaves every entry that is already blocked as it is, the exclude branch
  (\<open>blockItems\<close>, the recursive call, \<open>unblockItems\<close>) returns, and afterwards the \<open>blockedBy\<close>
  field of every item is what it was before the branch.
\<close>

theorem exclude_branch_restores_blockedBy:
  assumes "rodsFI items nextIndex" "nextIndex < length items"
  shows "\<exists>itemsB test2 itemsU.
     blockItems (items ! nextIndex) items = Inr itemsB \<and>
     (\<forall>j < length items. 0 \<le> blockedBy (items ! j) \<longrightarrow>
        blockedBy (itemsB ! j) = blockedBy (items ! j)) \<and>
     rodsExclude items allowedWeight nextIndex bestValue currentValue currentWeight
       remainingValue = Inr (test2, itemsU) \<and>
     map blockedBy itemsU = map blockedBy items \<and>
     rodsFI (setSelected items nextIndex True) (Suc nextIndex) \<and>
     rodsFI (setSelected itemsB nextIndex False) (Suc nextIndex)"
proof -
  have fr: "framed items nextIndex items" by (rule framed_refl)
  obtain itemsB where b: "blockItems (items ! nextIndex) items = Inr itemsB"
      and lB: "length itemsB = length items"
      and nB: "\<forall>j < length items. itemsB ! j =
        (if dominates items nextIndex j \<and> blockedBy (items ! j) < 0
         then (items ! j)\<lparr>blockedBy := int nextIndex\<rparr> else items ! j)"
      and fiF: "rodsFI (setSelected itemsB nextIndex False) (Suc nextIndex)"
    using rodsBlock[OF assms fr] by blast
  let ?itemsF = "setSelected itemsB nextIndex False"
  obtain test2 items2 where r: "doRodsTechnique ?itemsF allowedWeight (Suc nextIndex) bestValue
        currentValue currentWeight (remainingValue - item_value (?itemsF ! nextIndex))
        = Inr (test2, items2)"
      and f2: "framed ?itemsF (Suc nextIndex) items2"
    using doRodsTechnique_frame[OF fiF, of allowedWeight bestValue currentValue currentWeight
        "remainingValue - item_value (?itemsF ! nextIndex)"] by blast
  obtain itemsU where u: "unblockItems (items2 ! nextIndex) items2 = Inr itemsU"
      and fU: "framed items nextIndex itemsU"
    using rodsUnwind[OF assms fr lB nB fiF f2] by blast
  have e: "rodsExclude items allowedWeight nextIndex bestValue currentValue currentWeight
       remainingValue = Inr (test2, itemsU)"
    using b r u unfolding rodsExclude_def by (simp add: Let_def)
  have m: "map blockedBy itemsU = map blockedBy items"
  proof (rule map_blockedBy_clearSel)
    show "clearSel itemsU = clearSel items" using fU by (simp add: framed_def)
  qed
  have keep: "\<forall>j < length items. 0 \<le> blockedBy (items ! j) \<longrightarrow>
        blockedBy (itemsB ! j) = blockedBy (items ! j)"
    using nB by simp
  have fiT: "rodsFI (setSelected items nextIndex True) (Suc nextIndex)"
    using rodsFI_setSelected[OF rodsFI_mono[OF assms(1), of "Suc nextIndex"]] by simp
  show ?thesis using b keep e m fiT fiF by blast
qed

text \<open>
  Two items numbered 0 and 1, item 0 of value 2 and weight 1 dominating item 1 of value 1 and
  weight 2, where item 1 enters \<open>rodsTechnique\<close> with the \<open>blockedBy\<close> field 0, at capacity 3.
  At the root, after the include branch the \<open>blockedBy\<close> fields are \<open>- 1\<close> and 0; the exclude
  branch leaves the block of item 1 in place, and its \<open>unblockItems\<close> clears it: the fields are
  \<open>- 1\<close> and \<open>- 1\<close> after the branch.
\<close>

theorem stale_block_cleared_counterexample:
  "makeBlockLists staleDominated =
     [(mkItem 0 2 1)\<lparr>blockList := [1]\<rparr>, (mkItem 1 1 2)\<lparr>blockedBy := 0\<rparr>] \<and>
   rodsInclude (makeBlockLists staleDominated) 3 0 0 0 0 3 =
     Inr ((Some [(mkItem 0 2 1)\<lparr>blockList := [1], isSelected := True\<rparr>,
                 (mkItem 1 1 2)\<lparr>blockedBy := 0\<rparr>], 2, 3),
          [(mkItem 0 2 1)\<lparr>blockList := [1], isSelected := True\<rparr>,
           (mkItem 1 1 2)\<lparr>blockedBy := 0\<rparr>]) \<and>
   map blockedBy [(mkItem 0 2 1)\<lparr>blockList := [1], isSelected := True\<rparr>,
                  (mkItem 1 1 2)\<lparr>blockedBy := 0\<rparr>] = [- 1, 0] \<and>
   rodsExclude [(mkItem 0 2 1)\<lparr>blockList := [1], isSelected := True\<rparr>,
                (mkItem 1 1 2)\<lparr>blockedBy := 0\<rparr>] 3 0 2 0 0 3 =
     Inr ((None, 0, 1), [(mkItem 0 2 1)\<lparr>blockList := [1]\<rparr>, mkItem 1 1 2]) \<and>
   map blockedBy [(mkItem 0 2 1)\<lparr>blockList := [1]\<rparr>, mkItem 1 1 2] = [- 1, - 1] \<and>
   rodsTechnique staleDominated 3 =
     Inr ((Some [(mkItem 0 2 1)\<lparr>blockList := [1], isSelected := True\<rparr>,
                 (mkItem 1 1 2)\<lparr>blockedBy := 0\<rparr>], 2, 5),
          [(mkItem 0 2 1)\<lparr>blockList := [1]\<rparr>, mkItem 1 1 2])"
  by code_simp

text \<open>The root of the search on the two equal items, whose block lists name each other.\<close>

theorem exclude_branch_restores_blockedBy_witness:
  "\<exists>itemsB test2 itemsU.
     blockItems (makeBlockLists twins ! 0) (makeBlockLists twins) = Inr itemsB \<and>
     (\<forall>j < length (makeBlockLists twins). 0 \<le> blockedBy (makeBlockLists twins ! j) \<longrightarrow>
        blockedBy (itemsB ! j) = blockedBy (makeBlockLists twins ! j)) \<and>
     rodsExclude (makeBlockLists twins) 1 0 0 0 0 2 = Inr (test2, itemsU) \<and>
     map blockedBy itemsU = map blockedBy (makeBlockLists twins) \<and>
     rodsFI (setSelected (makeBlockLists twins) 0 True) (Suc 0) \<and>
     rodsFI (setSelected itemsB 0 False) (Suc 0)"
proof -
  have a: "rodsFI (makeBlockLists twins) 0"
    using twins_facts(3,4) by (rule rodsFI_start)
  have b: "0 < length (makeBlockLists twins)" by (simp add: twins_def)
  show ?thesis
    using exclude_branch_restores_blockedBy[OF a b, of 1 0 0 0 2] by simp
qed

section \<open>Claim C10: what the table-based solver does to its input\<close>

text \<open>
  Claim C10, as the code has it.  For every slice of a non-empty item collection with strictly
  positive values and weights and every capacity \<open>\<ge> 0\<close>, \<open>dynamicProgramming\<close> returns the
  very slice it was given: the returned slice is the argument, no array is added to the store
  and no array but the argument's changes.  The reconstruction changes no field but
  \<open>isSelected\<close> and only ever sets it: every item selected on entry is selected in the returned
  selection.  The selected values of the returned selection add up to at least the returned
  value, and to exactly the returned value whenever all items start unselected; they can also
  add up to the returned value when some item starts selected.  A copy, as \<open>copyItems\<close> makes
  it, is a slice other than the argument and adds an array to the store.
\<close>

theorem dynamicProgramming_selection_frame:
  assumes "a < length st" "st ! a \<noteq> []" "positive (st ! a)" "0 \<le> allowedWeight"
  shows "\<exists>sel v.
     dynamicProgrammingS st (Some a) allowedWeight = Inr ((Some a, v, 1), st[a := sel]) \<and>
     dynamicProgramming (st ! a) allowedWeight = Inr ((Some sel, v, 1), sel) \<and>
     length sel = length (st ! a) \<and> clearSel sel = clearSel (st ! a) \<and>
     (\<forall>i < length (st ! a). isSelected (st ! a ! i) \<longrightarrow> isSelected (sel ! i)) \<and>
     v \<le> sumValues sel False \<and>
     (unselected (st ! a) \<longrightarrow> sumValues sel False = v)"
proof -
  let ?items = "st ! a"
  obtain sel where d: "dynamicProgramming ?items allowedWeight =
           Inr ((Some sel, knap (pairs ?items) allowedWeight, 1), sel)"
      and p: "reconPost ?items (length ?items) sel"
      and le: "knap (pairs ?items) allowedWeight \<le> sumValues sel False"
      and eq: "(\<forall>i < length ?items. \<not> isSelected (?items ! i)) \<longrightarrow>
            sumValues sel False = knap (pairs ?items) allowedWeight"
    using dynamicProgramming_ok[OF assms(2,3,4)] by blast
  have s: "dynamicProgrammingS st (Some a) allowedWeight =
      Inr ((Some a, knap (pairs ?items) allowedWeight, 1), st[a := sel])"
    by (simp add: dynamicProgrammingS_contents[OF assms(1)] d valueOf_def callsOf_def)
  have u: "unselected ?items \<longrightarrow> sumValues sel False = knap (pairs ?items) allowedWeight"
    using eq unselected_nth by blast
  have f: "length sel = length ?items \<and> clearSel sel = clearSel ?items \<and>
     (\<forall>i < length ?items. isSelected (?items ! i) \<longrightarrow> isSelected (sel ! i))"
    using p by (simp add: reconPost_def)
  show ?thesis using s d f le u by blast
qed

text \<open>
  A single item of value 1 and weight 1 that is selected on entry, at capacity 1: the returned
  value 1 is the sum of the selected values of the returned selection, although not all items
  start unselected.
\<close>

theorem preselected_match_counterexample:
  "lightSelected \<noteq> [] \<and> positive lightSelected \<and> \<not> unselected lightSelected \<and>
   dynamicProgramming lightSelected 1 = Inr ((Some lightSelected, 1, 1), lightSelected) \<and>
   sumValues lightSelected False = 1 \<and>
   dynamicProgrammingS [lightSelected] (Some 0) 1 = Inr ((Some 0, 1, 1), [lightSelected])"
  by code_simp

text \<open>
  The scenario of five items at capacity 14, where no item starts selected, as the second
  array of a store; and the item of weight 5 that starts selected at capacity 0, where the
  returned value 0 is below the selected value 1.
\<close>

theorem dynamicProgramming_selection_frame_witness:
  "(\<exists>sel v. dynamicProgrammingS [twins, scenario] (Some 1) 14
        = Inr ((Some 1, v, 1), [twins, sel]) \<and>
      length sel = length scenario \<and> clearSel sel = clearSel scenario \<and>
      v \<le> sumValues sel False \<and> sumValues sel False = v) \<and>
   (\<exists>sel v. dynamicProgrammingS [heavySelected] (Some 0) 0 = Inr ((Some 0, v, 1), [sel]) \<and>
      isSelected (sel ! 0) \<and> v \<le> sumValues sel False)"
proof -
  have h: "heavySelected \<noteq> []" "positive heavySelected" "isSelected (heavySelected ! 0)"
      "0 < length heavySelected"
    by (simp_all add: heavySelected_def mkItem_def positive_def)
  have a: "\<exists>sel v. dynamicProgrammingS [twins, scenario] (Some 1) 14
        = Inr ((Some 1, v, 1), [twins, sel]) \<and>
      length sel = length scenario \<and> clearSel sel = clearSel scenario \<and>
      v \<le> sumValues sel False \<and> sumValues sel False = v"
    using dynamicProgramming_selection_frame[of 1 "[twins, scenario]" 14] scenario_facts
    by auto
  have b: "\<exists>sel v. dynamicProgrammingS [heavySelected] (Some 0) 0
        = Inr ((Some 0, v, 1), [sel]) \<and>
      isSelected (sel ! 0) \<and> v \<le> sumValues sel False"
    using dynamicProgramming_selection_frame[of 0 "[heavySelected]" 0] h by auto
  show ?thesis using a b by blast
qed

end
